theory Spec2Isabelle
  imports Complex_Main "HOL-Library.Word" "HOL-Library.Sublist"
begin

section \<open>JavaScript values used by the string utilities\<close>

text \<open>
  The module \<^verbatim>\<open>projects/packages/string/utils.ts\<close> is a set of pure functions over
  JavaScript strings. A JavaScript string is a sequence of 16-bit code units, and
  \<^verbatim>\<open>length\<close>, \<^verbatim>\<open>substring\<close>, \<^verbatim>\<open>split\<close> and the regular expressions of the module
  (none has the \<^verbatim>\<open>u\<close> flag) all work on code units. So a string is a list of
  16-bit words here. \<open>js\<close> writes an ASCII literal as such a list.

  The parameters of type \<^verbatim>\<open>number\<close> that the module uses as counts and positions
  (\<^verbatim>\<open>expectCount\<close>, \<^verbatim>\<open>max\<close>, \<^verbatim>\<open>fixed\<close>) are integers here; \<^verbatim>\<open>allow\<close>, which is only
  compared with a counter, is any finite number, a real.
  What the host throws is a value of type \<open>error\<close>, and a function that can throw
  returns \<open>error + 'a\<close>.
\<close>

type_synonym jsstring = "16 word list"

definition js :: "string \<Rightarrow> jsstring" where
  "js s = map (\<lambda>c. of_nat (of_char c)) s"

datatype error = RangeError | TypeError

subsection \<open>Host built-ins\<close>

text \<open>
  \<^verbatim>\<open>String.prototype.substring(start, end)\<close>: both positions are clamped into
  \<open>[0, length]\<close> and swapped when the first exceeds the second.
\<close>

definition substring :: "'a list \<Rightarrow> int \<Rightarrow> int \<Rightarrow> 'a list" where
  "substring s start end' =
     (let len = int (length s);
          finalStart = min (max start 0) len;
          finalEnd = min (max end' 0) len;
          from = min finalStart finalEnd;
          to = max finalStart finalEnd
      in take (nat (to - from)) (drop (nat from) s))"

text \<open>\<^verbatim>\<open>Array.prototype.join(separator)\<close> on an array of strings.\<close>

fun join :: "'a list \<Rightarrow> 'a list list \<Rightarrow> 'a list" where
  "join sep [] = []"
| "join sep [x] = x"
| "join sep (x # y # ys) = x @ sep @ join sep (y # ys)"

text \<open>
  \<^verbatim>\<open>Array.from(Array(count)).map(() => v)\<close>: the constructor \<^verbatim>\<open>Array(count)\<close> throws
  a RangeError unless \<open>count\<close> is an integer with \<open>0 \<le> count < 2^32\<close>; otherwise the
  result has \<open>count\<close> entries, each \<open>v\<close>.
\<close>

definition Array_filled :: "int \<Rightarrow> 'a \<Rightarrow> error + 'a list" where
  "Array_filled count v =
     (if count < 0 \<or> 2 ^ 32 \<le> count then Inl RangeError
      else Inr (replicate (nat count) v))"

text \<open>
  \<^verbatim>\<open>Number.prototype.toString()\<close> of an integer from \<open>-2^53\<close> to \<open>2^53 - 1\<close>, the range
  in which every integer is a number of the host and is written with all its digits:
  the decimal digits, with a minus sign when negative. Such an integer is a 54-bit
  word here, read as two's complement by \<open>sint\<close>.
\<close>

definition digit :: "nat \<Rightarrow> 16 word" where
  "digit d = of_nat (48 + d)"

fun digits :: "nat \<Rightarrow> jsstring" where
  "digits n = (if n < 10 then [digit n] else digits (n div 10) @ [digit (n mod 10)])"

declare digits.simps [simp del]

definition Number_toString :: "54 word \<Rightarrow> jsstring" where
  "Number_toString n =
     (if sint n < 0 then 0x2D # digits (nat (- sint n)) else digits (nat (sint n)))"

section \<open>padStart and padEnd\<close>

text \<open>
  The parameter \<^verbatim>\<open>text: string | number\<close>. A number is an integer from \<open>-2^53\<close> to
  \<open>2^53 - 1\<close> here. The two functions read a number only through its string form
  (\<^verbatim>\<open>text.toString()\<close> and the template literal), so any other number behaves as the
  string that the host writes for it does. The branch of the source for any other
  type of \<^verbatim>\<open>text\<close> returns it as it is and is outside this type.
\<close>

datatype str_or_num = Str jsstring | Num "54 word"

fun toString :: "str_or_num \<Rightarrow> jsstring" where
  "toString (Str s) = s"
| "toString (Num n) = Number_toString n"

definition padStart :: "str_or_num \<Rightarrow> jsstring \<Rightarrow> int \<Rightarrow> error + jsstring" where
  "padStart text addText expectCount =
     (let refine = toString text;
          len = int (length refine);
          count = expectCount - len
      in case Array_filled count addText of
           Inl e \<Rightarrow> Inl e
         | Inr adds \<Rightarrow>
             (let refine = join [] adds @ toString text
              in if expectCount < int (length refine)
                 then Inr (substring refine (int (length refine) - expectCount)
                             (int (length refine)))
                 else Inr refine))"

definition padEnd :: "str_or_num \<Rightarrow> jsstring \<Rightarrow> int \<Rightarrow> error + jsstring" where
  "padEnd text addText expectCount =
     (let refine = toString text;
          len = int (length refine);
          count = expectCount - len
      in case Array_filled count addText of
           Inl e \<Rightarrow> Inl e
         | Inr adds \<Rightarrow>
             (let refine = toString text @ join [] adds
              in if expectCount < int (length refine)
                 then Inr (substring refine 0 expectCount)
                 else Inr refine))"

section \<open>replaceAll and removeTag\<close>

text \<open>
  \<^verbatim>\<open>String.prototype.split(separator)\<close> with a string separator and no limit. With an
  empty separator the result is the list of the code units. Otherwise the text is
  scanned from the left: where the separator occurs, the piece read so far is closed
  and the scan goes on behind the occurrence.
\<close>

fun split_scan :: "'a list \<Rightarrow> 'a list \<Rightarrow> 'a list \<Rightarrow> 'a list list" where
  "split_scan sep piece [] = [piece]"
| "split_scan sep piece (c # cs) =
     (if sep \<noteq> [] \<and> prefix sep (c # cs)
      then piece # split_scan sep [] (drop (length sep - 1) cs)
      else split_scan sep (piece @ [c]) cs)"

definition split :: "'a list \<Rightarrow> 'a list \<Rightarrow> 'a list list" where
  "split text sep = (if sep = [] then map (\<lambda>c. [c]) text else split_scan sep [] text)"

definition replaceAll :: "jsstring \<Rightarrow> jsstring \<Rightarrow> jsstring \<Rightarrow> jsstring" where
  "replaceAll text find' replace =
     (if text = [] then text
      else if find' = [] then text
      else join replace (split text find'))"

text \<open>
  The regular expression \<^verbatim>\<open>/(<([^>]+)>)/gi\<close> tried at the head of a string: a \<^verbatim>\<open><\<close>,
  then as many code units other than \<^verbatim>\<open>>\<close> as there are (at least one), then a
  \<^verbatim>\<open>>\<close>. The result is what follows the match. Giving back code units of the greedy
  run cannot help, since the unit behind a shorter run is not \<^verbatim>\<open>>\<close>.
\<close>

definition match_tag :: "jsstring \<Rightarrow> jsstring option" where
  "match_tag s =
     (case s of
        [] \<Rightarrow> None
      | c # cs \<Rightarrow>
          if c = 0x3C then
            (let body = takeWhile (\<lambda>x. x \<noteq> 0x3E) cs;
                 rest = dropWhile (\<lambda>x. x \<noteq> 0x3E) cs
             in if body \<noteq> [] \<and> rest \<noteq> [] then Some (tl rest) else None)
          else None)"

text \<open>
  \<^verbatim>\<open>tagText.replace(/(<([^>]+)>)/gi, "")\<close>: at each position from the left, a match is
  dropped and the scan goes on behind it; where there is none, the code unit is kept.
\<close>

function replace_tags :: "jsstring \<Rightarrow> jsstring" where
  "replace_tags [] = []"
| "replace_tags (c # cs) =
     (case match_tag (c # cs) of
        Some rest \<Rightarrow> replace_tags rest
      | None \<Rightarrow> c # replace_tags cs)"
  by pat_completeness auto
termination
proof (relation "measure length")
  show "wf (measure length)" by simp
next
  fix c :: "16 word" and cs rest
  assume "match_tag (c # cs) = Some rest"
  then have "rest = tl (dropWhile (\<lambda>x. x \<noteq> 0x3E) cs)"
    by (simp add: match_tag_def Let_def split: if_splits)
  moreover have "length (tl (dropWhile (\<lambda>x. x \<noteq> 0x3E) cs)) \<le> length cs"
    using length_dropWhile_le [of "\<lambda>x. x \<noteq> 0x3E" cs] by simp
  ultimately show "(rest, c # cs) \<in> measure length" by simp
next
  fix c :: "16 word" and cs
  show "(cs, c # cs) \<in> measure length" by simp
qed

definition removeTag :: "jsstring \<Rightarrow> bool \<Rightarrow> jsstring" where
  "removeTag tagText removeTabSpace =
     (let refine = replace_tags tagText
      in if removeTabSpace then replaceAll refine [0x09] [] else refine)"

section \<open>toCamelFromSnake and toCamelFromKebab\<close>

text \<open>
  \<^verbatim>\<open>String.prototype.toUpperCase\<close>, on ASCII: the letters \<^verbatim>\<open>a\<close> to \<^verbatim>\<open>z\<close> move to
  \<^verbatim>\<open>A\<close> to \<^verbatim>\<open>Z\<close>. The two functions below apply it only to matches of their
  patterns, which are ASCII.
\<close>

definition toUpperCase_unit :: "16 word \<Rightarrow> 16 word" where
  "toUpperCase_unit c = (if 0x61 \<le> c \<and> c \<le> 0x7A then c - 0x20 else c)"

definition toUpperCase :: "jsstring \<Rightarrow> jsstring" where
  "toUpperCase s = map toUpperCase_unit s"

text \<open>
  \<^verbatim>\<open>String.prototype.replace(pattern, replacement)\<close> with a string pattern: only the
  first occurrence is replaced. (The replacement strings of the module that come
  here are empty, so no \<^verbatim>\<open>$\<close> pattern is involved.)
\<close>

fun replace_first :: "'a list \<Rightarrow> 'a list \<Rightarrow> 'a list \<Rightarrow> 'a list" where
  "replace_first pat rep [] = (if pat = [] then rep else [])"
| "replace_first pat rep (c # cs) =
     (if prefix pat (c # cs) then rep @ drop (length pat) (c # cs)
      else c # replace_first pat rep cs)"

text \<open>
  The class \<^verbatim>\<open>[a-z]\<close> under the flag \<^verbatim>\<open>i\<close>: a code unit matches when its
  canonical (upper-case) form is that of a member of the class, which holds of the
  ASCII letters of both cases and of no other code unit.
\<close>

definition az_ignore_case :: "16 word \<Rightarrow> bool" where
  "az_ignore_case c \<longleftrightarrow> (0x61 \<le> c \<and> c \<le> 0x7A) \<or> (0x41 \<le> c \<and> c \<le> 0x5A)"

text \<open>
  \<^verbatim>\<open>text.replace(/([s][a-z])/gi, f)\<close> for a pattern of two code units, the first
  in \<open>P\<close> and the second in \<open>Q\<close>: a match is replaced by what the callback returns
  for it, and the scan goes on behind the match.
\<close>

fun replace_pair ::
  "('a \<Rightarrow> bool) \<Rightarrow> ('a \<Rightarrow> bool) \<Rightarrow> ('a list \<Rightarrow> 'a list) \<Rightarrow> 'a list \<Rightarrow> 'a list" where
  "replace_pair P Q f (c # d # cs) =
     (if P c \<and> Q d then f [c, d] @ replace_pair P Q f cs
      else c # replace_pair P Q f (d # cs))"
| "replace_pair P Q f cs = cs"

definition toCamelFromSnake :: "jsstring \<Rightarrow> jsstring" where
  "toCamelFromSnake text =
     replace_pair (\<lambda>c. c = 0x5F) az_ignore_case
       (\<lambda>m. replace_first [0x5F] [] (toUpperCase m)) text"

definition toCamelFromKebab :: "jsstring \<Rightarrow> jsstring" where
  "toCamelFromKebab text =
     replace_pair (\<lambda>c. c = 0x2D) az_ignore_case
       (\<lambda>m. replace_first [0x2D] [] (toUpperCase m)) text"

section \<open>toEllipsisMiddle and toEllipsisEnd\<close>

text \<open>
  The parameter \<^verbatim>\<open>text\<close> may be absent (\<^verbatim>\<open>null\<close> or \<^verbatim>\<open>undefined\<close>, here \<open>None\<close>): the
  functions test \<^verbatim>\<open>!text\<close>, which holds of an absent text and of the empty string.
  The result \<open>None\<close> is \<^verbatim>\<open>null\<close>.
\<close>

definition falsy :: "jsstring option \<Rightarrow> bool" where
  "falsy text = (case text of None \<Rightarrow> True | Some t \<Rightarrow> t = [])"

definition toEllipsisMiddle :: "jsstring option \<Rightarrow> int \<Rightarrow> jsstring \<Rightarrow> jsstring option" where
  "toEllipsisMiddle text max' alternative =
     (if falsy text then text
      else
        (let refine = the text;
             strLen = int (length refine)
         in if max' < strLen then
              (let half = max' div 2;
                   strStart = substring refine 0 half;
                   strEnd = substring refine (strLen - half) strLen
               in Some (strStart @ alternative @ strEnd))
            else Some refine))"

definition toEllipsisEnd :: "jsstring option \<Rightarrow> int \<Rightarrow> jsstring \<Rightarrow> jsstring option" where
  "toEllipsisEnd text max' alternative =
     (if falsy text then None
      else
        (let refine = the text;
             strLen = int (length refine)
         in if max' < strLen then Some (substring refine 0 max' @ alternative)
            else Some refine))"

section \<open>escape\<close>

text \<open>
  \<^verbatim>\<open>text.replace(/[...]/g, f)\<close> for a pattern of one code unit in \<open>P\<close>: each such
  unit is replaced by what the callback returns for it.
\<close>

fun replace_class :: "('a \<Rightarrow> bool) \<Rightarrow> ('a list \<Rightarrow> 'a list) \<Rightarrow> 'a list \<Rightarrow> 'a list" where
  "replace_class P f [] = []"
| "replace_class P f (c # cs) = (if P c then f [c] else [c]) @ replace_class P f cs"

definition escape_match :: "jsstring \<Rightarrow> jsstring" where
  "escape_match m =
     (if m = js ''<'' then js ''&lt;''
      else if m = js ''>'' then js ''&gt;''
      else if m = js ''&'' then js ''&amp;''
      else m)"

definition escape :: "jsstring \<Rightarrow> jsstring" where
  "escape text = replace_class (\<lambda>c. c = 0x3C \<or> c = 0x3E \<or> c = 0x26) escape_match text"

section \<open>toWordArray\<close>

text \<open>
  The class \<^verbatim>\<open>\s\<close> of a regular expression, which is also what
  \<^verbatim>\<open>String.prototype.trim\<close> removes: the white space and line terminator code
  points of ECMAScript.
\<close>

definition is_space :: "16 word \<Rightarrow> bool" where
  "is_space c \<longleftrightarrow>
     c = 0x09 \<or> c = 0x0A \<or> c = 0x0B \<or> c = 0x0C \<or> c = 0x0D \<or> c = 0x20 \<or> c = 0xA0 \<or>
     c = 0x1680 \<or> (0x2000 \<le> c \<and> c \<le> 0x200A) \<or> c = 0x2028 \<or> c = 0x2029 \<or>
     c = 0x202F \<or> c = 0x205F \<or> c = 0x3000 \<or> c = 0xFEFF"

definition trim :: "jsstring \<Rightarrow> jsstring" where
  "trim s = rev (dropWhile is_space (rev (dropWhile is_space s)))"

text \<open>
  \<^verbatim>\<open>strReg.exec(text)\<close> for \<^verbatim>\<open>strReg = /\s*\S*/g\<close>, with the \<^verbatim>\<open>lastIndex\<close> of the
  expression as explicit state. Beyond the end of the text \<^verbatim>\<open>exec\<close> returns
  \<^verbatim>\<open>null\<close> (here \<open>None\<close>). Otherwise the match starts at \<^verbatim>\<open>lastIndex\<close>: the run of
  white space there, then the run of other code units behind it (either may be
  empty); the result is the match and the new \<^verbatim>\<open>lastIndex\<close>, the end of the match.
\<close>

definition exec_word :: "jsstring \<Rightarrow> nat \<Rightarrow> (jsstring \<times> nat) option" where
  "exec_word text lastIndex =
     (if length text < lastIndex then None
      else
        (let rest = drop lastIndex text;
             spaces = takeWhile is_space rest;
             others = takeWhile (\<lambda>c. \<not> is_space c) (dropWhile is_space rest);
             m = spaces @ others
         in Some (m, lastIndex + length m)))"

text \<open>
  The loop \<^verbatim>\<open>while (word) { if (word === "") break; refine.push(word); word =
  strReg.exec(text)[0].trim(); }\<close>. Reading \<^verbatim>\<open>[0]\<close> of \<^verbatim>\<open>null\<close> throws a TypeError.
\<close>

function toWordArray_loop ::
  "jsstring \<Rightarrow> nat \<Rightarrow> jsstring \<Rightarrow> jsstring list \<Rightarrow> error + jsstring list" where
  "toWordArray_loop text lastIndex word refine =
     (if word \<noteq> [] then
        (if word = [] then Inr refine
         else
           (case exec_word text lastIndex of
              None \<Rightarrow> Inl TypeError
            | Some (m, lastIndex') \<Rightarrow>
                toWordArray_loop text lastIndex' (trim m) (refine @ [word])))
      else Inr refine)"
  by pat_completeness auto
termination
  apply (relation "measure (\<lambda>(text, lastIndex, word, refine).
    2 * (Suc (length text) - lastIndex) + (if word = [] then 0 else 1))")
   apply simp
  subgoal premises prems for s lastIndex word refine x2 m lastIndex'
  proof -
    from prems have le: "lastIndex \<le> length s" and li: "lastIndex' = lastIndex + length m"
      by (auto simp add: exec_word_def Let_def split: if_splits)
    have "trim [] = []" by (simp add: trim_def)
    then have "2 * (Suc (length s) - lastIndex') + (if trim m = [] then 0 else 1)
        < 2 * (Suc (length s) - lastIndex) + 1"
      using le li by (cases m) auto
    then show ?thesis using prems(1) by simp
  qed
  done

definition toWordArray :: "jsstring \<Rightarrow> error + jsstring list" where
  "toWordArray text =
     (case exec_word text 0 of
        None \<Rightarrow> Inl TypeError
      | Some (m, lastIndex) \<Rightarrow> toWordArray_loop text lastIndex (trim m) [])"

section \<open>collapseMultiline\<close>

text \<open>
  \<^verbatim>\<open>!testReg.test(str)\<close> for \<^verbatim>\<open>testReg = /[^\s]/\<close>: the line has no code unit
  outside the white space class.
\<close>

definition isBreak :: "jsstring \<Rightarrow> bool" where
  "isBreak str \<longleftrightarrow> \<not> (\<exists>c \<in> set str. \<not> is_space c)"

text \<open>
  The body of \<^verbatim>\<open>separate.forEach\<close>, with the counter \<^verbatim>\<open>cnt\<close> and the array
  \<^verbatim>\<open>refine\<close> as explicit state. The counter is an integer; \<^verbatim>\<open>allow\<close> is any finite
  number.
\<close>

fun collapse_lines :: "real \<Rightarrow> jsstring list \<Rightarrow> int \<Rightarrow> jsstring list \<Rightarrow> jsstring list" where
  "collapse_lines allow [] cnt refine = refine"
| "collapse_lines allow (str # separate) cnt refine =
     (if isBreak str then
        (let cnt = cnt + 1
         in if of_int cnt < allow then collapse_lines allow separate cnt (refine @ [str])
            else collapse_lines allow separate cnt refine)
      else collapse_lines allow separate 0 (refine @ [str]))"

text \<open>
  \<^verbatim>\<open>text.split(/\n/)\<close> cuts at each line feed, as the split at the string of that one
  code unit does.
\<close>

definition collapseMultiline :: "jsstring \<Rightarrow> real \<Rightarrow> jsstring" where
  "collapseMultiline text allow =
     (let separate = split text [0x0A];
          refine = collapse_lines allow separate 0 []
      in join [0x0A] refine)"

section \<open>toCurrencyFormat\<close>

text \<open>
  What \<^verbatim>\<open>toCurrencyFormat\<close> takes from outside this file: the predicate \<^verbatim>\<open>isNumber\<close> of
  \<^verbatim>\<open>../number/utils\<close>, and the conversions of the host between numbers and strings,
  \<^verbatim>\<open>String(price)\<close> and \<^verbatim>\<open>Number(s).toFixed(1)\<close>. They are parameters of the model; \<open>'p\<close>
  is the type of the prices.
\<close>

record 'p host =
  isNumber :: "'p \<Rightarrow> bool"
  String :: "'p \<Rightarrow> jsstring"
  Number_toFixed1 :: "jsstring \<Rightarrow> jsstring"

text \<open>The interface \<^verbatim>\<open>CurrencyPriceOption\<close>; \<open>None\<close> is a field that is not given.\<close>

record CurrencyPriceOption =
  fixed :: "int option"
  replaceChar :: "jsstring option"

text \<open>An array element by its index; \<open>None\<close> is \<^verbatim>\<open>undefined\<close>.\<close>

definition element :: "'a list \<Rightarrow> nat \<Rightarrow> 'a option" where
  "element xs i = (if i < length xs then Some (xs ! i) else None)"

definition is_digit :: "16 word \<Rightarrow> bool" where
  "is_digit c \<longleftrightarrow> 0x30 \<le> c \<and> c \<le> 0x39"

text \<open>
  The look-ahead \<^verbatim>\<open>(?=(\d{3})+\.)\<close> tried at the head of a string: groups of three
  digits, at least one, then a full stop. The result is what the group has captured
  last.
\<close>

fun lookahead_groups :: "jsstring \<Rightarrow> jsstring option" where
  "lookahead_groups (a # b # c # rest) =
     (if is_digit a \<and> is_digit b \<and> is_digit c then
        (case rest of
           [] \<Rightarrow> None
         | d # _ \<Rightarrow> if d = 0x2E then Some [a, b, c] else lookahead_groups rest)
      else None)"
| "lookahead_groups s = None"

text \<open>
  The value of a decimal digit, and \<^verbatim>\<open>GetSubstitution\<close> of ECMAScript for a pattern
  without named groups: the expansion of a replacement template for one match, from
  the matched string, the text before it, the text behind it and the captures.
  \<^verbatim>\<open>$$\<close> is a dollar sign, \<^verbatim>\<open>$&\<close> the match, \<^verbatim>\<open>$`\<close> and \<^verbatim>\<open>$'\<close> the text before and
  behind it, \<^verbatim>\<open>$n\<close> and \<^verbatim>\<open>$nn\<close> the capture of that number where there is one (two
  digits that exceed the number of captures are read as one digit and a literal
  digit); every other code unit stands for itself.
\<close>

definition digit_value :: "16 word \<Rightarrow> nat" where
  "digit_value c = unat c - 48"

fun GetSubstitution ::
  "jsstring \<Rightarrow> jsstring \<Rightarrow> jsstring \<Rightarrow> jsstring list \<Rightarrow> jsstring \<Rightarrow> jsstring" where
  "GetSubstitution matched preceding following captures (c # d # template) =
     (if c \<noteq> 0x24 then c # GetSubstitution matched preceding following captures (d # template)
      else if d = 0x24 then 0x24 # GetSubstitution matched preceding following captures template
      else if d = 0x26 then matched @ GetSubstitution matched preceding following captures template
      else if d = 0x60 then preceding @ GetSubstitution matched preceding following captures template
      else if d = 0x27 then following @ GetSubstitution matched preceding following captures template
      else if is_digit d then
        (case template of
           e # template' \<Rightarrow>
             if is_digit e \<and> 10 * digit_value d + digit_value e \<le> length captures then
               (if 1 \<le> 10 * digit_value d + digit_value e
                then captures ! (10 * digit_value d + digit_value e - 1) @
                  GetSubstitution matched preceding following captures template'
                else [c, d, e] @ GetSubstitution matched preceding following captures template')
             else if 1 \<le> digit_value d \<and> digit_value d \<le> length captures
             then captures ! (digit_value d - 1) @
               GetSubstitution matched preceding following captures template
             else [c, d] @ GetSubstitution matched preceding following captures template
         | [] \<Rightarrow>
             if 1 \<le> digit_value d \<and> digit_value d \<le> length captures
             then captures ! (digit_value d - 1)
             else [c, d])
      else c # GetSubstitution matched preceding following captures (d # template))"
| "GetSubstitution matched preceding following captures template = template"

text \<open>
  \<^verbatim>\<open>s.replace(/\d(?=(\d{3})+\.)/g, template)\<close>: every digit behind which the look-ahead
  succeeds is replaced by the expansion of the template; the scan goes on behind
  the digit. \<open>preceding\<close> is the text already passed.
\<close>

fun replace_grouped :: "jsstring \<Rightarrow> jsstring \<Rightarrow> jsstring \<Rightarrow> jsstring" where
  "replace_grouped template preceding [] = []"
| "replace_grouped template preceding (c # cs) =
     (if is_digit c then
        (case lookahead_groups cs of
           Some capture \<Rightarrow>
             GetSubstitution [c] preceding cs [capture] template @
               replace_grouped template (preceding @ [c]) cs
         | None \<Rightarrow> c # replace_grouped template (preceding @ [c]) cs)
      else c # replace_grouped template (preceding @ [c]) cs)"

definition toCurrencyFormat ::
  "'p host \<Rightarrow> 'p \<Rightarrow> CurrencyPriceOption \<Rightarrow> error + jsstring" where
  "toCurrencyFormat h price options =
     (if \<not> isNumber h price then Inr (String h price)
      else
        (let fixed' = (case fixed options of None \<Rightarrow> 0 | Some f \<Rightarrow> f);
             replaceChar' = (case replaceChar options of None \<Rightarrow> js '','' | Some r \<Rightarrow> r);
             safeStr = String h price;
             splits = split safeStr (js ''.'');
             normal =
               (case element splits 0 of
                  None \<Rightarrow> js ''NaN''
                | Some n \<Rightarrow> Number_toFixed1 h n);
             normal = replace_grouped (js ''$&'' @ replaceChar') [] normal;
             normal = substring normal 0 (int (length normal) - 2);
             hasPoint = (0x2E \<in> set safeStr);
             decimal = (if hasPoint then element splits 1 else Some [])
         in if 0 < fixed' then
              (case decimal of
                 None \<Rightarrow> Inl TypeError
               | Some decimal \<Rightarrow>
                   (let decimalLen = int (length decimal)
                    in if decimalLen < fixed' then
                         (case Array_filled (fixed' - decimalLen) (js ''0'') of
                            Inl e \<Rightarrow> Inl e
                          | Inr zeros \<Rightarrow> Inr (normal @ js ''.'' @ decimal @ join [] zeros))
                       else Inr (normal @ js ''.'' @ substring decimal 0 fixed')))
            else
              Inr (if hasPoint
                   then normal @ js ''.'' @ (case decimal of None \<Rightarrow> js ''undefined'' | Some d \<Rightarrow> d)
                   else normal)))"

section \<open>Notions of the specification\<close>

text \<open>
  The replacement of a single code unit by its entity, as the specification of
  \<^verbatim>\<open>escape\<close> words it.
\<close>

definition entity :: "16 word \<Rightarrow> jsstring" where
  "entity c =
     (if c = 0x3C then js ''&lt;''
      else if c = 0x3E then js ''&gt;''
      else if c = 0x26 then js ''&amp;''
      else [c])"

text \<open>
  The tokens of a text as the specification of \<^verbatim>\<open>toWordArray\<close> words them: the text
  is cut at every white space code unit, and the empty pieces are discarded.
\<close>

fun cut_at :: "('a \<Rightarrow> bool) \<Rightarrow> 'a list \<Rightarrow> 'a list list" where
  "cut_at P [] = [[]]"
| "cut_at P (c # cs) =
     (if P c then [] # cut_at P cs
      else (case cut_at P cs of [] \<Rightarrow> [[c]] | w # ws \<Rightarrow> (c # w) # ws))"

definition tokens :: "jsstring \<Rightarrow> jsstring list" where
  "tokens text = filter (\<lambda>w. w \<noteq> []) (cut_at is_space text)"

text \<open>
  The thousands separators as the specification words them: the separator is
  inserted every three digits from the right.
\<close>

function group3 :: "jsstring \<Rightarrow> jsstring \<Rightarrow> jsstring" where
  "group3 sep ds =
     (if length ds \<le> 3 then ds
      else group3 sep (take (length ds - 3) ds) @ sep @ drop (length ds - 3) ds)"
  by pat_completeness auto
termination
  by (relation "measure (\<lambda>(sep, ds). length ds)") auto

declare group3.simps [simp del]

text \<open>
  The host as observed at one price: whether \<^verbatim>\<open>isNumber\<close> accepts it, its string
  form, and \<^verbatim>\<open>Number(s).toFixed(1)\<close> of the integer part of that string.
\<close>

definition host_at :: "bool \<Rightarrow> jsstring \<Rightarrow> jsstring \<Rightarrow> unit host" where
  "host_at numeric str fix1 =
     \<lparr>isNumber = (\<lambda>_. numeric), String = (\<lambda>_. str), Number_toFixed1 = (\<lambda>_. fix1)\<rparr>"

text \<open>The separators, inserted from the left as the scan of the replacement does.\<close>

fun group_left :: "'a list \<Rightarrow> 'a list \<Rightarrow> 'a list" where
  "group_left sep [] = []"
| "group_left sep (d # ds) =
     d # (if ds \<noteq> [] \<and> 3 dvd length ds then sep else []) @ group_left sep ds"

text \<open>
  The lines to keep as the specification of \<^verbatim>\<open>collapseMultiline\<close> words them: of every
  run of consecutive blank lines the first \<open>k\<close> are kept and the others are dropped;
  a line that is not blank is kept, and the next run starts behind it.
\<close>

function cut_blank_runs :: "nat \<Rightarrow> jsstring list \<Rightarrow> jsstring list" where
  "cut_blank_runs k ls =
     (case dropWhile isBreak ls of
        [] \<Rightarrow> take k (takeWhile isBreak ls)
      | l # rest \<Rightarrow> take k (takeWhile isBreak ls) @ l # cut_blank_runs k rest)"
  by pat_completeness auto
termination
proof (relation "measure (\<lambda>(k, ls). length ls)")
  show "wf (measure (\<lambda>(k, ls). length ls))" by simp
next
  fix k :: nat and ls :: "jsstring list" and l rest
  assume "dropWhile isBreak ls = l # rest"
  then have "length rest < length (dropWhile isBreak ls)" by simp
  also have "\<dots> \<le> length ls" by (rule length_dropWhile_le)
  finally show "((k, rest), (k, ls)) \<in> measure (\<lambda>(k, ls). length ls)" by simp
qed

declare cut_blank_runs.simps [simp del]

section \<open>Facts about the built-ins and the functions\<close>

lemma join_empty_sep: "join [] xs = concat xs"
  by (induction "[]::'a list" xs rule: join.induct) simp_all

lemma length_concat_replicate: "length (concat (replicate n xs)) = n * length xs"
  by (induction n) simp_all

lemma substring_suffix:
  "0 \<le> k \<Longrightarrow> k \<le> int (length s) \<Longrightarrow> substring s k (int (length s)) = drop (nat k) s"
  by (auto simp add: substring_def Let_def min_def max_def)

lemma substring_prefix:
  "0 \<le> k \<Longrightarrow> k \<le> int (length s) \<Longrightarrow> substring s 0 k = take (nat k) s"
  by (auto simp add: substring_def Let_def min_def max_def)

lemma Array_filled_ok:
  "0 \<le> count \<Longrightarrow> count < 2 ^ 32 \<Longrightarrow> Array_filled count v = Inr (replicate (nat count) v)"
  by (simp add: Array_filled_def)

lemma padStart_value:
  assumes "int (length (toString text)) \<le> expectCount"
    and "expectCount - int (length (toString text)) < 2 ^ 32"
    and "addText \<noteq> []"
  shows "padStart text addText expectCount =
     Inr (drop (nat (expectCount - int (length (toString text))) * (length addText - 1))
            (concat (replicate (nat (expectCount - int (length (toString text)))) addText))
          @ toString text)"
proof -
  define s where "s = toString text"
  define n where "n = nat (expectCount - int (length s))"
  define pad where "pad = concat (replicate n addText)"
  have cnt: "expectCount = int n + int (length s)"
    using assms(1) by (simp add: n_def s_def)
  have lp: "length pad = n * length addText"
    by (simp add: pad_def length_concat_replicate)
  have "1 \<le> length addText" using assms(3) by (cases addText) simp_all
  then have ge: "n \<le> length pad" by (simp add: lp)
  have A: "Array_filled (expectCount - int (length s)) addText = Inr (replicate n addText)"
    using assms(1,2) by (simp add: Array_filled_ok n_def s_def)
  have k: "n * (length addText - 1) = length pad - n"
    by (simp add: lp diff_mult_distrib2)
  show ?thesis
  proof (cases "expectCount < int (length (pad @ s))")
    case True
    have "substring (pad @ s) (int (length (pad @ s)) - expectCount) (int (length (pad @ s)))
          = drop (nat (int (length (pad @ s)) - expectCount)) (pad @ s)"
      using True ge by (intro substring_suffix) (simp_all add: cnt)
    also have "nat (int (length (pad @ s)) - expectCount) = length pad - n"
      using ge by (simp add: cnt)
    also have "drop (length pad - n) (pad @ s) = drop (length pad - n) pad @ s"
      by simp
    finally show ?thesis
      using True A k
      by (simp add: padStart_def Let_def join_empty_sep s_def [symmetric] n_def [symmetric] pad_def [symmetric])
  next
    case False
    then have "length pad = n" using ge by (simp add: cnt)
    then have "drop (n * (length addText - 1)) pad = pad" using k by auto
    then show ?thesis
      using False A
      by (simp add: padStart_def Let_def join_empty_sep s_def [symmetric] n_def [symmetric] pad_def [symmetric])
  qed
qed

lemma padEnd_value:
  assumes "int (length (toString text)) \<le> expectCount"
    and "expectCount - int (length (toString text)) < 2 ^ 32"
    and "addText \<noteq> []"
  shows "padEnd text addText expectCount =
     Inr (toString text @
          take (nat (expectCount - int (length (toString text))))
            (concat (replicate (nat (expectCount - int (length (toString text)))) addText)))"
proof -
  define s where "s = toString text"
  define n where "n = nat (expectCount - int (length s))"
  define pad where "pad = concat (replicate n addText)"
  have cnt: "expectCount = int n + int (length s)"
    using assms(1) by (simp add: n_def s_def)
  have lp: "length pad = n * length addText"
    by (simp add: pad_def length_concat_replicate)
  have "1 \<le> length addText" using assms(3) by (cases addText) simp_all
  then have ge: "n \<le> length pad" by (simp add: lp)
  have A: "Array_filled (expectCount - int (length s)) addText = Inr (replicate n addText)"
    using assms(1,2) by (simp add: Array_filled_ok n_def s_def)
  show ?thesis
  proof (cases "expectCount < int (length (s @ pad))")
    case True
    have "substring (s @ pad) 0 expectCount = take (nat expectCount) (s @ pad)"
      using True by (intro substring_prefix) (simp_all add: cnt)
    also have "\<dots> = s @ take n pad"
      by (simp add: cnt nat_add_distrib)
    finally show ?thesis
      using True A
      by (simp add: padEnd_def Let_def join_empty_sep s_def [symmetric] n_def [symmetric] pad_def [symmetric])
  next
    case False
    then have "length pad = n" using ge by (simp add: cnt)
    then show ?thesis
      using False A
      by (simp add: padEnd_def Let_def join_empty_sep s_def [symmetric] n_def [symmetric] pad_def [symmetric])
  qed
qed

lemma substring_take: "substring s 0 k = take (nat k) s"
  by (auto simp add: substring_def Let_def min_def max_def)

lemma substring_drop:
  "h < int (length s) \<Longrightarrow> substring s (int (length s) - h) (int (length s)) = drop (length s - nat h) s"
proof (cases "0 \<le> h")
  case True
  assume "h < int (length s)"
  then have "nat (int (length s) - h) = length s - nat h" using True by linarith
  then show ?thesis
    using True \<open>h < int (length s)\<close>
    by (auto simp add: substring_def Let_def min_def max_def)
next
  case False
  then show ?thesis
    by (auto simp add: substring_def Let_def min_def max_def)
qed

lemma escape_match_unit:
  "escape_match [c] =
     (if c = 0x3C then js ''&lt;'' else if c = 0x3E then js ''&gt;''
      else if c = 0x26 then js ''&amp;'' else [c])"
  by (simp add: escape_match_def js_def)

lemma escape_concat: "escape text = concat (map entity text)"
  by (induction "text") (simp_all add: escape_def escape_match_unit entity_def)

lemma length_entity: "1 \<le> length (entity c)"
  by (simp add: entity_def js_def)

lemma length_entity_amp: "length (entity 0x26) = 5"
  by (simp add: entity_def js_def)

lemma length_escape_ge: "length text \<le> length (escape text)"
proof (induction "text")
  case Nil
  show ?case by (simp add: escape_concat)
next
  case (Cons c cs)
  then show ?case using length_entity [of c] by (simp add: escape_concat)
qed

lemma length_escape_gt: "0x26 \<in> set text \<Longrightarrow> length text < length (escape text)"
proof (induction "text")
  case Nil
  then show ?case by simp
next
  case (Cons c cs)
  show ?case
  proof (cases "c = 0x26")
    case True
    then show ?thesis
      using length_escape_ge [of cs] length_entity_amp by (simp add: escape_concat)
  next
    case False
    then have "length cs < length (escape cs)" using Cons by simp
    then show ?thesis using length_entity [of c] by (simp add: escape_concat)
  qed
qed

lemma amp_in_entity: "c = 0x3C \<or> c = 0x3E \<or> c = 0x26 \<Longrightarrow> 0x26 \<in> set (entity c)"
  by (auto simp add: entity_def js_def)

lemma amp_in_escape:
  "\<exists>c \<in> set text. c = 0x3C \<or> c = 0x3E \<or> c = 0x26 \<Longrightarrow> 0x26 \<in> set (escape text)"
  using amp_in_entity by (auto simp add: escape_concat)

lemma split_scan_unit_pieces:
  "c \<notin> set piece \<Longrightarrow> p \<in> set (split_scan [c] piece rest) \<Longrightarrow> c \<notin> set p"
proof (induction rest arbitrary: piece)
  case Nil
  then show ?case by simp
next
  case (Cons x xs)
  show ?case
  proof (cases "x = c")
    case True
    with Cons.prems(2) have "p = piece \<or> p \<in> set (split_scan [c] [] xs)" by simp
    then show ?thesis
    proof
      assume "p = piece"
      then show ?thesis using Cons.prems(1) by simp
    next
      assume "p \<in> set (split_scan [c] [] xs)"
      then show ?thesis using Cons.IH [of "[]"] by simp
    qed
  next
    case False
    with Cons.prems(2) have "p \<in> set (split_scan [c] (piece @ [x]) xs)" by simp
    moreover have "c \<notin> set (piece @ [x])" using False Cons.prems(1) by simp
    ultimately show ?thesis by (rule Cons.IH [rotated])
  qed
qed

lemma set_join: "set (join sep ps) \<subseteq> set sep \<union> \<Union> (set ` set ps)"
  by (induction sep ps rule: join.induct) auto

lemma replaceAll_unit_absent:
  assumes "c \<notin> set r"
  shows "c \<notin> set (replaceAll text [c] r)"
proof (cases "text = []")
  case True
  then show ?thesis by (simp add: replaceAll_def)
next
  case False
  have "\<And>p. p \<in> set (split_scan [c] [] text) \<Longrightarrow> c \<notin> set p"
    using split_scan_unit_pieces [of c "[]"] by simp
  then have "c \<notin> \<Union> (set ` set (split_scan [c] [] text))" by auto
  then have "c \<notin> set (join r (split_scan [c] [] text))"
    using set_join [of r "split_scan [c] [] text"] assms by auto
  then show ?thesis using False by (simp add: replaceAll_def split_def)
qed

lemma sublist_unit: "sublist [c] xs \<longleftrightarrow> c \<in> set xs"
  by (induction xs) (auto simp add: sublist_Cons_right)

lemma join_split_scan_unit:
  "join [] (split_scan [c] piece rest) = piece @ filter (\<lambda>x. x \<noteq> c) rest"
proof (induction rest arbitrary: piece)
  case Nil
  show ?case by simp
next
  case (Cons x xs)
  show ?case
  proof (cases "x = c")
    case True
    have "join [] (piece # split_scan [c] [] xs) = piece @ join [] (split_scan [c] [] xs)"
      by (cases "split_scan [c] [] xs") simp_all
    then show ?thesis using True Cons by simp
  next
    case False
    then show ?thesis using Cons by simp
  qed
qed

lemma replaceAll_unit_empty: "replaceAll text [c] [] = filter (\<lambda>x. x \<noteq> c) text"
  by (simp add: replaceAll_def split_def join_split_scan_unit)

lemma replace_pair_append:
  "\<not> Q s \<Longrightarrow>
   replace_pair P Q f (xs @ s # rest) = replace_pair P Q f xs @ replace_pair P Q f (s # rest)"
  by (induction P Q f xs rule: replace_pair.induct) simp_all

lemma replace_pair_no_first:
  "\<forall>c \<in> set xs. \<not> P c \<Longrightarrow> replace_pair P Q f xs = xs"
  by (induction P Q f xs rule: replace_pair.induct) simp_all

lemma not_az_5F: "\<not> az_ignore_case 0x5F"
  by (simp add: az_ignore_case_def)

lemma not_az_2D: "\<not> az_ignore_case 0x2D"
  by (simp add: az_ignore_case_def)

lemma snake_callback: "replace_first [0x5F] [] (toUpperCase [0x5F, c]) = [toUpperCase_unit c]"
  by (simp add: toUpperCase_def toUpperCase_unit_def)

lemma kebab_callback: "replace_first [0x2D] [] (toUpperCase [0x2D, c]) = [toUpperCase_unit c]"
  by (simp add: toUpperCase_def toUpperCase_unit_def)

lemma toCamelFromSnake_letter:
  "az_ignore_case c \<Longrightarrow>
   toCamelFromSnake (xs @ 0x5F # c # ys) =
     toCamelFromSnake xs @ toUpperCase_unit c # toCamelFromSnake ys"
  by (simp add: toCamelFromSnake_def replace_pair_append not_az_5F snake_callback)

lemma toCamelFromSnake_other:
  "\<not> az_ignore_case c \<Longrightarrow>
   toCamelFromSnake (xs @ 0x5F # c # ys) = toCamelFromSnake xs @ 0x5F # toCamelFromSnake (c # ys)"
  by (simp add: toCamelFromSnake_def replace_pair_append not_az_5F)

lemma toCamelFromSnake_plain: "0x5F \<notin> set xs \<Longrightarrow> toCamelFromSnake xs = xs"
  using replace_pair_no_first [of xs "\<lambda>c. c = 0x5F"]
  by (auto simp add: toCamelFromSnake_def)

lemma toCamelFromKebab_letter:
  "az_ignore_case c \<Longrightarrow>
   toCamelFromKebab (xs @ 0x2D # c # ys) =
     toCamelFromKebab xs @ toUpperCase_unit c # toCamelFromKebab ys"
  by (simp add: toCamelFromKebab_def replace_pair_append not_az_2D kebab_callback)

lemma toCamelFromKebab_other:
  "\<not> az_ignore_case c \<Longrightarrow>
   toCamelFromKebab (xs @ 0x2D # c # ys) = toCamelFromKebab xs @ 0x2D # toCamelFromKebab (c # ys)"
  by (simp add: toCamelFromKebab_def replace_pair_append not_az_2D)

lemma toCamelFromKebab_plain: "0x2D \<notin> set xs \<Longrightarrow> toCamelFromKebab xs = xs"
  using replace_pair_no_first [of xs "\<lambda>c. c = 0x2D"]
  by (auto simp add: toCamelFromKebab_def)

lemma match_tag_not_lt: "c \<noteq> 0x3C \<Longrightarrow> match_tag (c # cs) = None"
  by (simp add: match_tag_def)

lemma match_tag_empty_body: "match_tag (0x3C # 0x3E # cs) = None"
  by (simp add: match_tag_def)

lemma match_tag_Some:
  "match_tag s = Some rest \<Longrightarrow>
   \<exists>body. body \<noteq> [] \<and> 0x3E \<notin> set body \<and> s = 0x3C # body @ 0x3E # rest"
proof -
  assume a: "match_tag s = Some rest"
  then obtain c cs where s: "s = c # cs" by (cases s) (simp_all add: match_tag_def)
  let ?body = "takeWhile (\<lambda>x. x \<noteq> 0x3E) cs"
  let ?r = "dropWhile (\<lambda>x. x \<noteq> 0x3E) cs"
  from a s have c: "c = 0x3C" and b: "?body \<noteq> []" and r: "?r \<noteq> []" and rest: "rest = tl ?r"
    by (simp_all add: match_tag_def Let_def split: if_splits)
  from r have "hd ?r = 0x3E" using hd_dropWhile [of "\<lambda>x. x \<noteq> 0x3E" cs] by simp
  with r rest have "?r = 0x3E # rest" by (cases ?r) simp_all
  then have "cs = ?body @ 0x3E # rest"
    using takeWhile_dropWhile_id [of "\<lambda>x. x \<noteq> 0x3E" cs] by simp
  moreover have "0x3E \<notin> set ?body" by (auto dest: set_takeWhileD)
  ultimately show ?thesis using s c b by blast
qed

lemma replace_tags_no_lt: "0x3C \<notin> set xs \<Longrightarrow> replace_tags (xs @ ys) = xs @ replace_tags ys"
  by (induction xs) (simp_all add: match_tag_not_lt)

lemma replace_tags_empty_tag: "replace_tags (0x3C # 0x3E # ys) = 0x3C # 0x3E # replace_tags ys"
  by (simp add: match_tag_empty_body match_tag_not_lt)

lemma replace_tags_unchanged:
  "(\<And>d. sublist [0x3C, d] xs \<Longrightarrow> d = 0x3E) \<Longrightarrow> replace_tags xs = xs"
proof (induction xs rule: replace_tags.induct)
  case 1
  show ?case by simp
next
  case (2 c cs)
  have none: "match_tag (c # cs) = None"
  proof (cases "match_tag (c # cs)")
    case None
    then show ?thesis .
  next
    case (Some rest)
    then obtain body where b: "body \<noteq> []" "0x3E \<notin> set body" "c # cs = 0x3C # body @ 0x3E # rest"
      using match_tag_Some by blast
    then obtain d ds where d: "body = d # ds" by (cases body) simp_all
    with b have "sublist [0x3C, d] (c # cs)"
      by (simp add: sublist_Cons_right)
    then have "d = 0x3E" by (rule "2.prems")
    with b d show ?thesis by simp
  qed
  have "replace_tags cs = cs"
  proof (rule "2.IH"(1) [OF none])
    fix d
    assume "sublist [0x3C, d] cs"
    then show "d = 0x3E" using "2.prems" by (simp add: sublist_Cons_right)
  qed
  then show ?case using none by simp
qed

lemma removeTag_keeps_empty_tag:
  assumes "0x3C \<notin> set xs"
  shows "removeTag (xs @ 0x3C # 0x3E # ys) b = removeTag xs b @ 0x3C # 0x3E # removeTag ys b"
proof -
  have "replace_tags (xs @ []) = xs @ replace_tags []" using assms by (rule replace_tags_no_lt)
  then have x: "replace_tags xs = xs" by simp
  have "replace_tags (xs @ 0x3C # 0x3E # ys) = xs @ 0x3C # 0x3E # replace_tags ys"
    using assms by (simp add: replace_tags_no_lt replace_tags_empty_tag del: replace_tags.simps)
  then show ?thesis using x by (simp add: removeTag_def replaceAll_unit_empty)
qed

declare toWordArray_loop.simps [simp del]

lemma cut_at_not_Nil: "cut_at P xs \<noteq> []"
  by (induction xs) (auto split: list.splits)

lemma tokens_Nil: "tokens [] = []"
  by (simp add: tokens_def)

lemma tokens_spaces: "\<forall>c \<in> set ws. is_space c \<Longrightarrow> tokens (ws @ rest) = tokens rest"
  by (induction ws) (simp_all add: tokens_def)

lemma cut_at_word:
  "\<forall>c \<in> set w. \<not> P c \<Longrightarrow>
   cut_at P (w @ rest) = (w @ hd (cut_at P rest)) # tl (cut_at P rest)"
proof (induction w)
  case Nil
  show ?case using cut_at_not_Nil [of P rest] by simp
next
  case (Cons c w)
  then show ?case by simp
qed

lemma tokens_word:
  assumes "w \<noteq> []" and "\<forall>c \<in> set w. \<not> is_space c" and "rest = [] \<or> is_space (hd rest)"
  shows "tokens (w @ rest) = w # tokens rest"
proof (cases rest)
  case Nil
  then show ?thesis using assms(1,2) cut_at_word [of w is_space "[]"] by (simp add: tokens_def)
next
  case (Cons c cs)
  then have "is_space c" using assms(3) by simp
  then have "cut_at is_space rest = [] # cut_at is_space cs" using Cons by simp
  then show ?thesis using assms(1,2) cut_at_word [of w is_space rest] by (simp add: tokens_def)
qed

lemma dropWhile_none: "\<forall>x \<in> set w. \<not> P x \<Longrightarrow> dropWhile P w = w"
  by (cases w) simp_all

lemma trim_match:
  assumes "\<forall>c \<in> set ws. is_space c" and "\<forall>c \<in> set w. \<not> is_space c"
  shows "trim (ws @ w) = w"
proof -
  have "dropWhile is_space (ws @ w) = w"
    using assms by (simp add: dropWhile_append dropWhile_none)
  moreover have "dropWhile is_space (rev w) = rev w"
    using assms(2) by (intro dropWhile_none) simp
  ultimately show ?thesis by (simp add: trim_def)
qed

lemma tokens_props: "w \<in> set (tokens s) \<Longrightarrow> w \<noteq> [] \<and> (\<forall>c \<in> set w. \<not> is_space c)"
proof -
  have "\<forall>w \<in> set (cut_at is_space s). \<forall>c \<in> set w. \<not> is_space c"
  proof (induction s)
    case Nil
    show ?case by simp
  next
    case (Cons c cs)
    obtain a as where a: "cut_at is_space cs = a # as"
      using cut_at_not_Nil [of is_space cs] by (cases "cut_at is_space cs") simp_all
    show ?case
    proof (cases "is_space c")
      case True
      then show ?thesis using Cons by simp
    next
      case False
      then show ?thesis using Cons a by simp
    qed
  qed
  then show "w \<in> set (tokens s) \<Longrightarrow> w \<noteq> [] \<and> (\<forall>c \<in> set w. \<not> is_space c)"
    by (auto simp add: tokens_def)
qed

lemma concat_cut_at: "concat (cut_at P s) = filter (\<lambda>c. \<not> P c) s"
proof (induction s)
  case Nil
  show ?case by simp
next
  case (Cons c cs)
  then show ?case using cut_at_not_Nil [of P cs]
    by (cases "cut_at P cs") auto
qed

lemma concat_filter_nonempty: "concat (filter (\<lambda>w. w \<noteq> []) xs) = concat xs"
  by (induction xs) simp_all

lemma concat_tokens: "concat (tokens s) = filter (\<lambda>c. \<not> is_space c) s"
  by (simp add: tokens_def concat_filter_nonempty concat_cut_at)

lemma toWordArray_scan:
  "i \<le> length s \<Longrightarrow>
   (case exec_word s i of
      None \<Rightarrow> Inl TypeError
    | Some (m, j) \<Rightarrow> toWordArray_loop s j (trim m) refine) = Inr (refine @ tokens (drop i s))"
proof (induction "length s - i" arbitrary: i refine rule: less_induct)
  case less
  define rest where "rest = drop i s"
  define ws where "ws = takeWhile is_space rest"
  define r1 where "r1 = dropWhile is_space rest"
  define w where "w = takeWhile (\<lambda>c. \<not> is_space c) r1"
  define r2 where "r2 = dropWhile (\<lambda>c. \<not> is_space c) r1"
  define j where "j = i + length (ws @ w)"
  have rest: "rest = ws @ w @ r2"
    by (simp add: ws_def w_def r2_def r1_def)
  have ws: "\<forall>c \<in> set ws. is_space c"
    by (auto simp add: ws_def dest: set_takeWhileD)
  have w: "\<forall>c \<in> set w. \<not> is_space c"
    by (auto simp add: w_def dest: set_takeWhileD)
  have r1: "r1 = [] \<or> \<not> is_space (hd r1)"
    using hd_dropWhile [of is_space rest] by (auto simp add: r1_def)
  have r2: "r2 = [] \<or> is_space (hd r2)"
    using hd_dropWhile [of "\<lambda>c. \<not> is_space c" r1] by (auto simp add: r2_def)
  have ex: "exec_word s i = Some (ws @ w, j)"
    using less.prems
    by (simp add: exec_word_def Let_def rest_def ws_def w_def r1_def j_def)
  have tr: "trim (ws @ w) = w" using ws w by (rule trim_match)
  have len: "length rest = length s - i" by (simp add: rest_def)
  have jle: "j \<le> length s"
    using len less.prems rest by (simp add: j_def)
  have dj: "drop j s = r2"
  proof -
    have "drop j s = drop (length (ws @ w)) (drop i s)" by (simp add: j_def add.commute)
    also have "\<dots> = drop (length (ws @ w)) ((ws @ w) @ r2)" using rest by (simp add: rest_def)
    also have "\<dots> = r2" by (rule append_eq_conv_conj [THEN iffD1, THEN conjunct2, symmetric]) simp
    finally show ?thesis .
  qed
  show ?case
  proof (cases "w = []")
    case True
    then have "r1 = []" using r1 by (cases r1) (auto simp add: w_def)
    then have "rest = ws" by (simp add: rest r2_def True)
    then have "tokens rest = []" using tokens_spaces [of ws "[]"] ws by (simp add: tokens_Nil)
    then show ?thesis
      using ex tr True by (simp add: toWordArray_loop.simps rest_def)
  next
    case False
    then have "i < j" by (simp add: j_def)
    then have "length s - j < length s - i" using jle by simp
    then have ih: "(case exec_word s j of
        None \<Rightarrow> Inl TypeError
      | Some (m, k) \<Rightarrow> toWordArray_loop s k (trim m) (refine @ [w]))
       = Inr ((refine @ [w]) @ tokens (drop j s))"
      using jle by (rule less.hyps)
    have "tokens rest = tokens (w @ r2)" using ws rest tokens_spaces by simp
    also have "\<dots> = w # tokens r2" using False w r2 by (rule tokens_word)
    finally have tk: "tokens (drop i s) = w # tokens (drop j s)" by (simp add: rest_def dj)
    have "toWordArray_loop s j w refine =
      (case exec_word s j of
        None \<Rightarrow> Inl TypeError
      | Some (m, k) \<Rightarrow> toWordArray_loop s k (trim m) (refine @ [w]))"
      using False by (subst toWordArray_loop.simps) simp
    then show ?thesis using ex tr ih tk by simp
  qed
qed

lemma toWordArray_tokens: "toWordArray s = Inr (tokens s)"
  using toWordArray_scan [of 0 s "[]"] by (simp add: toWordArray_def)

lemma collapse_lines_acc:
  "collapse_lines allow ls cnt refine = refine @ collapse_lines allow ls cnt []"
proof (induction ls arbitrary: cnt refine)
  case Nil
  show ?case by simp
next
  case (Cons l ls)
  show ?case
    using Cons [of _ "refine @ [l]"] Cons [of _ "[l]"] Cons [of _ refine]
    by (simp add: Let_def)
qed

lemma collapse_lines_Cons:
  "collapse_lines allow (l # ls) cnt [] =
     (if isBreak l then
        (if cnt + 1 < \<lceil>allow\<rceil> then l # collapse_lines allow ls (cnt + 1) []
         else collapse_lines allow ls (cnt + 1) [])
      else l # collapse_lines allow ls 0 [])"
proof -
  have "real_of_int (cnt + 1) < allow \<longleftrightarrow> cnt + 1 < \<lceil>allow\<rceil>"
    by (rule less_ceiling_iff [symmetric])
  then show ?thesis
    using collapse_lines_acc [of allow ls _ "[l]"] by (simp add: Let_def)
qed

lemma blank_prefix_bound:
  "prefix ys (collapse_lines allow ls cnt []) \<Longrightarrow> ys \<noteq> [] \<Longrightarrow> \<forall>l \<in> set ys. isBreak l \<Longrightarrow>
   int (length ys) \<le> \<lceil>allow\<rceil> - 1 - cnt"
proof (induction ls arbitrary: cnt ys)
  case Nil
  then show ?case by simp
next
  case (Cons l ls)
  show ?case
  proof (cases "isBreak l")
    case False
    with Cons.prems show ?thesis
      by (cases ys) (auto simp add: collapse_lines_Cons simp del: collapse_lines.simps(2))
  next
    case True
    show ?thesis
    proof (cases "cnt + 1 < \<lceil>allow\<rceil>")
      case keep: True
      from Cons.prems(2) obtain y ys' where ys: "ys = y # ys'" by (cases ys) auto
      with Cons.prems(1) True keep have p: "prefix ys' (collapse_lines allow ls (cnt + 1) [])"
        by (simp add: collapse_lines_Cons del: collapse_lines.simps(2))
      show ?thesis
      proof (cases "ys' = []")
        case True
        then show ?thesis using keep ys by simp
      next
        case False
        have "int (length ys') \<le> \<lceil>allow\<rceil> - 1 - (cnt + 1)"
          using p False Cons.prems(3) ys by (intro Cons.IH) simp_all
        then show ?thesis using ys by simp
      qed
    next
      case drop: False
      with Cons.prems(1) True have "prefix ys (collapse_lines allow ls (cnt + 1) [])"
        by (simp add: collapse_lines_Cons del: collapse_lines.simps(2))
      then have "int (length ys) \<le> \<lceil>allow\<rceil> - 1 - (cnt + 1)"
        using Cons.prems(2,3) by (rule Cons.IH)
      then show ?thesis by simp
    qed
  qed
qed

lemma blank_sublist_bound:
  "sublist ys (collapse_lines allow ls cnt []) \<Longrightarrow> ys \<noteq> [] \<Longrightarrow> \<forall>l \<in> set ys. isBreak l \<Longrightarrow>
   0 \<le> cnt \<Longrightarrow> int (length ys) \<le> \<lceil>allow\<rceil> - 1"
proof (induction ls arbitrary: cnt)
  case Nil
  then show ?case by simp
next
  case (Cons l ls)
  let ?out = "collapse_lines allow (l # ls) cnt []"
  show ?case
  proof (cases "isBreak l \<and> \<not> cnt + 1 < \<lceil>allow\<rceil>")
    case True
    then have "sublist ys (collapse_lines allow ls (cnt + 1) [])"
      using Cons.prems(1) by (simp add: collapse_lines_Cons del: collapse_lines.simps(2))
    then show ?thesis using Cons.prems(2,3,4) by (intro Cons.IH [of "cnt + 1"]) simp_all
  next
    case False
    then obtain c' where out: "?out = l # collapse_lines allow ls c' []" and c': "0 \<le> c'"
      using Cons.prems(4)
      by (cases "isBreak l") (simp_all add: collapse_lines_Cons del: collapse_lines.simps(2))
    from Cons.prems(1) out
    have "prefix ys ?out \<or> sublist ys (collapse_lines allow ls c' [])"
      by (simp add: sublist_Cons_right)
    then show ?thesis
    proof
      assume "prefix ys ?out"
      then have "int (length ys) \<le> \<lceil>allow\<rceil> - 1 - cnt"
        using Cons.prems(2,3) by (rule blank_prefix_bound)
      then show ?thesis using Cons.prems(4) by simp
    next
      assume "sublist ys (collapse_lines allow ls c' [])"
      then show ?thesis using Cons.prems(2,3) c' by (rule Cons.IH)
    qed
  qed
qed

lemma collapse_lines_nonblank:
  "filter (\<lambda>l. \<not> isBreak l) (collapse_lines allow ls cnt []) = filter (\<lambda>l. \<not> isBreak l) ls"
  by (induction ls arbitrary: cnt) (simp_all add: collapse_lines_Cons del: collapse_lines.simps(2))

lemma collapse_lines_subseq: "subseq (collapse_lines allow ls cnt []) ls"
  by (induction ls arbitrary: cnt)
    (simp_all add: collapse_lines_Cons list_emb_Cons del: collapse_lines.simps(2))

lemma collapse_lines_blanks:
  "list_all isBreak bs \<Longrightarrow>
   collapse_lines allow (bs @ rest) cnt [] =
     take (nat (\<lceil>allow\<rceil> - 1 - cnt)) bs @ collapse_lines allow rest (cnt + int (length bs)) []"
proof (induction bs arbitrary: cnt)
  case Nil
  show ?case by simp
next
  case (Cons b bs)
  then have b: "isBreak b" and bs: "list_all isBreak bs" by simp_all
  have ih: "collapse_lines allow (bs @ rest) (cnt + 1) [] =
      take (nat (\<lceil>allow\<rceil> - 1 - (cnt + 1))) bs @
      collapse_lines allow rest (cnt + 1 + int (length bs)) []"
    using Cons.IH [OF bs] .
  have c: "cnt + 1 + int (length bs) = cnt + int (length (b # bs))" by simp
  show ?case
  proof (cases "cnt + 1 < \<lceil>allow\<rceil>")
    case True
    then have "nat (\<lceil>allow\<rceil> - 1 - cnt) = Suc (nat (\<lceil>allow\<rceil> - 1 - (cnt + 1)))" by linarith
    then show ?thesis
      using True b ih c
      by (simp add: collapse_lines_Cons del: collapse_lines.simps(2))
  next
    case False
    then have "nat (\<lceil>allow\<rceil> - 1 - cnt) = 0" "nat (\<lceil>allow\<rceil> - 1 - (cnt + 1)) = 0" by linarith+
    then show ?thesis
      using False b ih c
      by (simp add: collapse_lines_Cons del: collapse_lines.simps(2))
  qed
qed

lemma collapse_lines_run:
  assumes "list_all isBreak bs" and "\<not> isBreak l"
  shows "collapse_lines allow (bs @ l # ls) 0 [] =
    take (nat (\<lceil>allow\<rceil> - 1)) bs @ l # collapse_lines allow ls 0 []"
  using collapse_lines_blanks [OF assms(1), of allow "l # ls" 0] assms(2)
  by (simp add: collapse_lines_Cons del: collapse_lines.simps(2))

lemma collapse_lines_all_blank:
  assumes "list_all isBreak bs"
  shows "collapse_lines allow bs 0 [] = take (nat (\<lceil>allow\<rceil> - 1)) bs"
  using collapse_lines_blanks [OF assms, of allow "[]" 0] by simp

lemma takeWhile_dropWhile_blank:
  "list_all isBreak (takeWhile isBreak ls)"
  by (simp add: list_all_iff) (auto dest: set_takeWhileD)

lemma collapse_lines_cut: "collapse_lines allow ls 0 [] = cut_blank_runs (nat (\<lceil>allow\<rceil> - 1)) ls"
proof (induction "nat (\<lceil>allow\<rceil> - 1)" ls rule: cut_blank_runs.induct)
  case (1 ls)
  have ls: "ls = takeWhile isBreak ls @ dropWhile isBreak ls" by simp
  show ?case
  proof (cases "dropWhile isBreak ls")
    case Nil
    then have "list_all isBreak ls" by (simp add: list_all_iff)
    then have a: "collapse_lines allow ls 0 [] = take (nat (\<lceil>allow\<rceil> - 1)) ls"
      by (rule collapse_lines_all_blank)
    have tw: "takeWhile isBreak ls = ls" using ls Nil by simp
    have c: "cut_blank_runs (nat (\<lceil>allow\<rceil> - 1)) ls =
        take (nat (\<lceil>allow\<rceil> - 1)) (takeWhile isBreak ls)"
      by (subst cut_blank_runs.simps) (simp only: Nil list.case)
    show ?thesis by (simp only: a c tw)
  next
    case (Cons l rest)
    then have nb: "\<not> isBreak l" using hd_dropWhile [of isBreak ls] by auto
    have "collapse_lines allow (takeWhile isBreak ls @ l # rest) 0 [] =
        take (nat (\<lceil>allow\<rceil> - 1)) (takeWhile isBreak ls) @ l # collapse_lines allow rest 0 []"
      using takeWhile_dropWhile_blank nb by (rule collapse_lines_run)
    moreover have "collapse_lines allow rest 0 [] = cut_blank_runs (nat (\<lceil>allow\<rceil> - 1)) rest"
      using Cons by (rule "1.hyps")
    moreover have "ls = takeWhile isBreak ls @ l # rest" using ls Cons by simp
    moreover have "cut_blank_runs (nat (\<lceil>allow\<rceil> - 1)) ls =
        take (nat (\<lceil>allow\<rceil> - 1)) (takeWhile isBreak ls) @
        l # cut_blank_runs (nat (\<lceil>allow\<rceil> - 1)) rest"
      by (subst cut_blank_runs.simps) (simp only: Cons list.case)
    ultimately show ?thesis by simp
  qed
qed

lemma split_scan_piece:
  "c \<notin> set p \<Longrightarrow> split_scan [c] piece (p @ rest) = split_scan [c] (piece @ p) rest"
  by (induction p arbitrary: piece) simp_all

lemma split_scan_join:
  "\<forall>p \<in> set (q # ps). c \<notin> set p \<Longrightarrow> split_scan [c] piece (join [c] (q # ps)) = (piece @ q) # ps"
proof (induction ps arbitrary: q piece)
  case Nil
  then show ?case using split_scan_piece [of c q piece "[]"] by simp
next
  case (Cons p ps)
  have "split_scan [c] piece (join [c] (q # p # ps))
      = split_scan [c] (piece @ q) (c # join [c] (p # ps))"
    using Cons.prems split_scan_piece [of c q piece "c # join [c] (p # ps)"] by simp
  also have "\<dots> = (piece @ q) # split_scan [c] [] (join [c] (p # ps))" by simp
  also have "split_scan [c] [] (join [c] (p # ps)) = p # ps"
    using Cons.IH [of p "[]"] Cons.prems by simp
  finally show ?case .
qed

lemma split_join_unit:
  "ps \<noteq> [] \<Longrightarrow> \<forall>p \<in> set ps. c \<notin> set p \<Longrightarrow> split (join [c] ps) [c] = ps"
  using split_scan_join [of _ _ c "[]"] by (cases ps) (simp_all add: split_def)

lemma replace_pair_skip: "\<not> P c \<Longrightarrow> replace_pair P Q f (c # ys) = c # replace_pair P Q f ys"
  by (cases ys) simp_all

lemma toCamelFromSnake_skip: "d \<noteq> 0x5F \<Longrightarrow> toCamelFromSnake (d # ys) = d # toCamelFromSnake ys"
  by (simp add: toCamelFromSnake_def replace_pair_skip)

lemma toCamelFromKebab_skip: "d \<noteq> 0x2D \<Longrightarrow> toCamelFromKebab (d # ys) = d # toCamelFromKebab ys"
  by (simp add: toCamelFromKebab_def replace_pair_skip)

lemma split_scan_not_Nil: "split_scan sep piece rest \<noteq> []"
  by (induction rest arbitrary: piece) simp_all

lemma join_Cons: "ps \<noteq> [] \<Longrightarrow> join sep (p # ps) = p @ sep @ join sep ps"
  by (cases ps) simp_all

lemma join_split_scan: "join sep (split_scan sep piece rest) = piece @ rest"
proof (induction sep piece rest rule: split_scan.induct)
  case (1 sep piece)
  show ?case by simp
next
  case (2 sep piece c cs)
  show ?case
  proof (cases "sep \<noteq> [] \<and> prefix sep (c # cs)")
    case True
    then obtain zs where zs: "c # cs = sep @ zs" by (auto simp add: prefix_def)
    then have "drop (length sep) (c # cs) = zs" by simp
    moreover have "drop (length sep) (c # cs) = drop (length sep - 1) cs"
      using True by (cases sep) simp_all
    ultimately have d: "drop (length sep - 1) cs = zs" by simp
    have "join sep (piece # split_scan sep [] zs) = piece @ sep @ join sep (split_scan sep [] zs)"
      using split_scan_not_Nil by (rule join_Cons)
    also have "\<dots> = piece @ sep @ zs" using "2.IH"(1) True d by simp
    finally have j: "join sep (piece # split_scan sep [] zs) = piece @ sep @ zs" .
    have "split_scan sep piece (c # cs) = piece # split_scan sep [] zs"
      using True d by simp
    then show ?thesis using j zs by simp
  next
    case False
    then show ?thesis using "2.IH"(2) by auto
  qed
qed

lemma sublist_start:
  assumes "sublist sep xs" and "sep \<noteq> []"
  shows "\<exists>i < length xs. prefix sep (drop i xs)"
proof -
  from assms(1) obtain ps ss where xs: "xs = ps @ sep @ ss" by (auto simp add: sublist_def)
  then have "prefix sep (drop (length ps) xs)" by simp
  moreover have "length ps < length xs" using xs assms(2) by simp
  ultimately show ?thesis by blast
qed

lemma split_scan_pieces:
  "sep \<noteq> [] \<Longrightarrow> \<forall>i < length piece. \<not> prefix sep (drop i (piece @ rest)) \<Longrightarrow>
    p \<in> set (split_scan sep piece rest) \<Longrightarrow> \<not> sublist sep p"
proof (induction sep piece rest rule: split_scan.induct)
  case (1 sep piece)
  then have "p = piece" by simp
  then show ?case using "1.prems"(1,2) sublist_start [of sep piece] by auto
next
  case (2 sep piece c cs)
  note assms = "2.prems"(1)
  note Cons = "2.prems"(2,3)
  have no: "\<not> sublist sep piece"
  proof
    assume "sublist sep piece"
    then obtain i where i: "i < length piece" "prefix sep (drop i piece)"
      using sublist_start assms by blast
    then have "prefix sep (drop i (piece @ c # cs))" by (simp add: prefix_prefix)
    then show False using Cons(1) i(1) by blast
  qed
  show ?case
  proof (cases "prefix sep (c # cs)")
    case True
    then have "p = piece \<or> p \<in> set (split_scan sep [] (drop (length sep - 1) cs))"
      using Cons(2) assms by simp
    then show ?thesis
    proof
      assume "p = piece"
      then show ?thesis using no by simp
    next
      assume "p \<in> set (split_scan sep [] (drop (length sep - 1) cs))"
      then show ?thesis using "2.IH"(1) True assms by simp
    qed
  next
    case False
    then have p: "p \<in> set (split_scan sep (piece @ [c]) cs)" using Cons(2) by simp
    have "\<forall>i < length (piece @ [c]). \<not> prefix sep (drop i ((piece @ [c]) @ cs))"
    proof (intro allI impI)
      fix i
      assume "i < length (piece @ [c])"
      then have "i < length piece \<or> i = length piece" by auto
      then show "\<not> prefix sep (drop i ((piece @ [c]) @ cs))"
        using Cons(1) False by auto
    qed
    then show ?thesis using "2.IH"(2) False assms p by blast
  qed
qed

lemma split_pieces: "sep \<noteq> [] \<Longrightarrow> p \<in> set (split s sep) \<Longrightarrow> \<not> sublist sep p"
  using split_scan_pieces [of sep "[]" s p] by (simp add: split_def)

lemma replaceAll_join_split: "sep \<noteq> [] \<Longrightarrow> replaceAll s sep r = join r (split s sep)"
  by (simp add: replaceAll_def split_def)

lemma join_split: "sep \<noteq> [] \<Longrightarrow> join sep (split s sep) = s"
  by (simp add: split_def join_split_scan)

lemma GetSubstitution_plain:
  "0x24 \<notin> set template \<Longrightarrow> GetSubstitution m b a caps template = template"
  by (induction m b a caps template rule: GetSubstitution.induct) simp_all

lemma GetSubstitution_match:
  "0x24 \<notin> set r \<Longrightarrow> GetSubstitution m b a caps (js ''$&'' @ r) = m @ r"
  by (simp add: js_def GetSubstitution_plain)

lemma dvd3_small: "\<not> 3 dvd Suc 0" "\<not> 3 dvd Suc (Suc 0)" "3 dvd Suc (Suc (Suc n)) \<longleftrightarrow> 3 dvd n"
  by presburger+

lemma lookahead_groups_digits:
  "list_all is_digit ds \<Longrightarrow>
   lookahead_groups (ds @ 0x2E # post) = None \<longleftrightarrow> \<not> (ds \<noteq> [] \<and> 3 dvd length ds)"
proof (induction ds rule: length_induct)
  case (1 ds)
  have nd: "\<not> is_digit 0x2E" by (simp add: is_digit_def)
  show ?case
  proof (cases ds)
    case Nil
    then show ?thesis using nd by (cases post rule: lookahead_groups.cases) simp_all
  next
    case a: (Cons a ds1)
    show ?thesis
    proof (cases ds1)
      case Nil
      then show ?thesis using a nd by (cases post) (simp_all add: dvd3_small)
    next
      case b: (Cons b ds2)
      show ?thesis
      proof (cases ds2)
        case Nil
        then show ?thesis using a b nd by (simp add: dvd3_small)
      next
        case c: (Cons c ds3)
        show ?thesis
        proof (cases ds3)
          case Nil
          then show ?thesis using a b c "1.prems" by (simp add: dvd3_small)
        next
          case (Cons d ds4)
          have "is_digit d" using "1.prems" a b c Cons by simp
          then have "d \<noteq> 0x2E" using nd by auto
          moreover have "lookahead_groups (ds3 @ 0x2E # post) = None \<longleftrightarrow>
              \<not> (ds3 \<noteq> [] \<and> 3 dvd length ds3)"
            using "1.IH" "1.prems" a b c by simp
          ultimately show ?thesis using a b c Cons "1.prems" by (simp add: dvd3_small)
        qed
      qed
    qed
  qed
qed

lemma group_left_short: "length ds \<le> 3 \<Longrightarrow> group_left sep ds = ds"
proof (cases ds)
  case Nil
  then show ?thesis by simp
next
  case a: (Cons a ds1)
  assume le: "length ds \<le> 3"
  show ?thesis
  proof (cases ds1)
    case Nil
    then show ?thesis using a by simp
  next
    case b: (Cons b ds2)
    show ?thesis
    proof (cases ds2)
      case Nil
      then show ?thesis using a b by (simp add: dvd3_small)
    next
      case (Cons c ds3)
      then have "ds3 = []" using le a b by simp
      then show ?thesis using a b Cons by (simp add: dvd3_small)
    qed
  qed
qed

lemma group_left_snoc3:
  "length ys = 3 \<Longrightarrow> xs \<noteq> [] \<Longrightarrow> group_left sep (xs @ ys) = group_left sep xs @ sep @ ys"
proof (induction xs)
  case Nil
  then show ?case by simp
next
  case (Cons x xs)
  show ?case
  proof (cases "xs = []")
    case True
    have "ys \<noteq> []" using Cons.prems(1) by auto
    then show ?thesis using True Cons.prems(1) group_left_short [of ys sep] by simp
  next
    case False
    then have "group_left sep (xs @ ys) = group_left sep xs @ sep @ ys"
      using Cons by simp
    moreover have "3 dvd length (xs @ ys) \<longleftrightarrow> 3 dvd length xs"
      using Cons.prems(1) by simp
    ultimately show ?thesis using False by simp
  qed
qed

lemma group_left_group3: "group_left sep ds = group3 sep ds"
proof (induction sep ds rule: group3.induct)
  case (1 sep ds)
  show ?case
  proof (cases "length ds \<le> 3")
    case True
    then show ?thesis by (simp add: group_left_short group3.simps [of sep ds])
  next
    case False
    let ?xs = "take (length ds - 3) ds" and ?ys = "drop (length ds - 3) ds"
    have "group_left sep (?xs @ ?ys) = group_left sep ?xs @ sep @ ?ys"
      using False by (intro group_left_snoc3) auto
    then show ?thesis using False "1.IH" by (simp add: group3.simps [of sep ds])
  qed
qed

lemma replace_grouped_digits:
  assumes "0x24 \<notin> set r"
  shows "list_all is_digit ds \<Longrightarrow>
    replace_grouped (js ''$&'' @ r) pre (ds @ 0x2E # post) =
      group_left r ds @ replace_grouped (js ''$&'' @ r) (pre @ ds) (0x2E # post)"
proof (induction ds arbitrary: pre)
  case Nil
  show ?case by simp
next
  case (Cons d ds)
  then have d: "is_digit d" and ds: "list_all is_digit ds" by simp_all
  have ih: "replace_grouped (js ''$&'' @ r) (pre @ [d]) (ds @ 0x2E # post) =
      group_left r ds @ replace_grouped (js ''$&'' @ r) (pre @ d # ds) (0x2E # post)"
    using Cons.IH [OF ds, of "pre @ [d]"] by simp
  note step = replace_grouped.simps(2) [of "js ''$&'' @ r" pre d "ds @ 0x2E # post"]
  show ?case
  proof (cases "lookahead_groups (ds @ 0x2E # post)")
    case None
    then have "\<not> (ds \<noteq> [] \<and> 3 dvd length ds)"
      using lookahead_groups_digits [OF ds] by simp
    then have "group_left r (d # ds) = d # group_left r ds" by auto
    then show ?thesis using None d ih step by (simp del: replace_grouped.simps)
  next
    case (Some capture)
    then have "ds \<noteq> [] \<and> 3 dvd length ds"
      using lookahead_groups_digits [OF ds, of post] by simp
    then have "group_left r (d # ds) = d # r @ group_left r ds" by auto
    then show ?thesis
      using Some d ih step GetSubstitution_match [OF assms]
      by (simp del: replace_grouped.simps)
  qed
qed

lemma replace_grouped_no_digit:
  "\<not> (\<exists>c \<in> set s. is_digit c) \<Longrightarrow>
   replace_grouped template pre (s @ rest) = s @ replace_grouped template (pre @ s) rest"
  by (induction s arbitrary: pre) simp_all

lemma replace_grouped_tail: "replace_grouped template pre (js ''.0'') = js ''.0''"
  by (simp add: js_def is_digit_def)

lemma replace_grouped_fixed1:
  assumes "0x24 \<notin> set r" and "\<not> (\<exists>c \<in> set sg. is_digit c)" and "list_all is_digit ds"
  shows "replace_grouped (js ''$&'' @ r) [] (sg @ ds @ js ''.0'') = sg @ group3 r ds @ js ''.0''"
proof -
  have "js ''.0'' = 0x2E # js ''0''" by (simp add: js_def)
  then have "replace_grouped (js ''$&'' @ r) sg (ds @ js ''.0'') =
      group_left r ds @ replace_grouped (js ''$&'' @ r) (sg @ ds) (js ''.0'')"
    using replace_grouped_digits [OF assms(1,3), of sg "js ''0''"] by simp
  then show ?thesis
    using replace_grouped_no_digit [OF assms(2), of "js ''$&'' @ r" "[]" "ds @ js ''.0''"]
    by (simp add: replace_grouped_tail group_left_group3)
qed

lemma substring_strip2: "substring (xs @ js ''.0'') 0 (int (length (xs @ js ''.0'')) - 2) = xs"
  by (simp add: substring_take js_def)

lemma split_no_point: "0x2E \<notin> set ip \<Longrightarrow> split ip (js ''.'') = [ip]"
  using split_join_unit [of "[ip]" "0x2E"] by (simp add: js_def)

lemma split_one_point:
  "0x2E \<notin> set ip \<Longrightarrow> 0x2E \<notin> set f \<Longrightarrow> split (ip @ 0x2E # f) (js ''.'') = [ip, f]"
  using split_join_unit [of "[ip, f]" "0x2E"] by (simp add: js_def)

lemma Array_filled_zeros:
  "0 \<le> k \<Longrightarrow> k < 2 ^ 32 \<Longrightarrow> Array_filled k (js ''0'') = Inr (replicate (nat k) (js ''0''))"
  by (simp add: Array_filled_def)

lemma concat_replicate_unit: "concat (replicate k [x]) = replicate k x"
  by (induction k) simp_all

lemma toCurrencyFormat_numeric:
  assumes num: "isNumber h price"
    and str: "String h price = ip @ (case fr of None \<Rightarrow> [] | Some f \<Rightarrow> 0x2E # f)"
    and ip: "0x2E \<notin> set ip"
    and fr: "case fr of None \<Rightarrow> True | Some f \<Rightarrow> 0x2E \<notin> set f"
    and fx: "Number_toFixed1 h ip = sg @ ds @ js ''.0''"
    and sg: "\<not> (\<exists>c \<in> set sg. is_digit c)"
    and ds: "list_all is_digit ds"
    and rc: "rc = (case replaceChar options of None \<Rightarrow> js '','' | Some r \<Rightarrow> r)"
    and dollar: "0x24 \<notin> set rc"
    and n: "n = (case fixed options of None \<Rightarrow> 0 | Some k \<Rightarrow> k)"
    and bound: "n < 2 ^ 32"
  shows "toCurrencyFormat h price options =
    Inr (sg @ group3 rc ds @
         (if 0 < n
          then js ''.'' @
            take (nat n) ((case fr of None \<Rightarrow> [] | Some f \<Rightarrow> f) @ replicate (nat n) 0x30)
          else (case fr of None \<Rightarrow> [] | Some f \<Rightarrow> 0x2E # f)))"
proof -
  define decimal where "decimal = (case fr of None \<Rightarrow> [] | Some f \<Rightarrow> f)"
  define splits where "splits = split (String h price) (js ''.'')"
  define normal where "normal = sg @ group3 rc ds"
  have e0: "element splits 0 = Some ip"
    and hp: "0x2E \<in> set (String h price) \<longleftrightarrow> fr \<noteq> None"
    and e1: "fr \<noteq> None \<Longrightarrow> element splits 1 = Some decimal"
  proof -
    show "element splits 0 = Some ip"
      using str ip fr
      by (cases fr) (simp_all add: splits_def split_no_point split_one_point element_def)
    show "0x2E \<in> set (String h price) \<longleftrightarrow> fr \<noteq> None"
      using str ip by (cases fr) simp_all
    show "fr \<noteq> None \<Longrightarrow> element splits 1 = Some decimal"
      using str ip fr
      by (cases fr) (simp_all add: splits_def split_one_point element_def decimal_def)
  qed
  have rg: "replace_grouped (js ''$&'' @ rc) [] (Number_toFixed1 h ip) = normal @ js ''.0''"
    using replace_grouped_fixed1 [OF dollar sg ds] by (simp add: fx normal_def)
  have nm: "substring (normal @ js ''.0'') 0 (int (length (normal @ js ''.0'')) - 2) = normal"
    by (rule substring_strip2)
  have dec: "(if fr \<noteq> None then element splits 1 else Some []) = Some decimal"
    using e1 by (cases fr) (simp_all add: decimal_def)
  have body: "toCurrencyFormat h price options =
     (if 0 < n then
        (if int (length decimal) < n then
           (case Array_filled (n - int (length decimal)) (js ''0'') of
              Inl e \<Rightarrow> Inl e
            | Inr zeros \<Rightarrow> Inr (normal @ js ''.'' @ decimal @ join [] zeros))
         else Inr (normal @ js ''.'' @ substring decimal 0 n))
      else Inr (if fr \<noteq> None then normal @ js ''.'' @ decimal else normal))"
    unfolding toCurrencyFormat_def Let_def
    using num
    by (simp only: if_not_P not_not splits_def [symmetric] e0 option.case rc [symmetric]
        n [symmetric] rg nm dec hp if_True if_False)
  show ?thesis
  proof (cases "0 < n")
    case False
    then show ?thesis
      using body by (cases fr) (simp_all add: normal_def decimal_def js_def)
  next
    case pos: True
    show ?thesis
    proof (cases "int (length decimal) < n")
      case True
      then have a: "Array_filled (n - int (length decimal)) (js ''0'') =
          Inr (replicate (nat (n - int (length decimal))) (js ''0''))"
        using bound by (intro Array_filled_zeros) simp_all
      have "take (nat n) (decimal @ replicate (nat n) 0x30) =
          decimal @ replicate (nat (n - int (length decimal))) 0x30"
        using True by (simp add: nat_diff_distrib')
      then show ?thesis
        using body pos True a
        by (simp add: normal_def decimal_def [symmetric] join_empty_sep js_def
            concat_replicate_unit)
    next
      case False
      then have "take (nat n) (decimal @ replicate (nat n) 0x30) = take (nat n) decimal"
        by simp
      then show ?thesis
        using body pos False
        by (simp add: normal_def decimal_def [symmetric] substring_take)
    qed
  qed
qed

lemma toCamelFromSnake_end: "toCamelFromSnake (xs @ [0x5F]) = toCamelFromSnake xs @ [0x5F]"
  by (simp add: toCamelFromSnake_def replace_pair_append not_az_5F)

lemma toCamelFromKebab_end: "toCamelFromKebab (xs @ [0x2D]) = toCamelFromKebab xs @ [0x2D]"
  by (simp add: toCamelFromKebab_def replace_pair_append not_az_2D)

lemma takeWhile_rev_suffix:
  "c \<notin> set (takeWhile P (rev (ys @ xs))) \<Longrightarrow> c \<notin> set (takeWhile P (rev xs))"
proof -
  assume a: "c \<notin> set (takeWhile P (rev (ys @ xs)))"
  have "takeWhile P (rev xs @ rev ys) =
      (if \<forall>x \<in> set (rev xs). P x then rev xs @ takeWhile P (rev ys) else takeWhile P (rev xs))"
    by (simp add: takeWhile_append)
  then show ?thesis using a by (auto split: if_splits dest: set_takeWhileD)
qed

lemma match_tag_append:
  "match_tag s = Some rest \<Longrightarrow> match_tag (s @ zs) = Some (rest @ zs)"
proof -
  assume "match_tag s = Some rest"
  then obtain body where b: "body \<noteq> []" "0x3E \<notin> set body" "s = 0x3C # body @ 0x3E # rest"
    using match_tag_Some by blast
  have t: "takeWhile (\<lambda>x. x \<noteq> 0x3E) (body @ 0x3E # rest @ zs) = body"
    using b(2) by (auto simp add: takeWhile_tail)
  have d: "dropWhile (\<lambda>x. x \<noteq> 0x3E) (body @ 0x3E # rest @ zs) = 0x3E # rest @ zs"
    using b(2) by (auto simp add: dropWhile_append)
  show ?thesis using b(1) by (simp add: b(3) match_tag_def t d)
qed

lemma match_tag_None_closed:
  assumes "match_tag (0x3C # cs) = None"
    and "0x3C \<notin> set (takeWhile (\<lambda>x. x \<noteq> 0x3E) (rev (0x3C # cs)))"
  shows "\<exists>cs'. cs = 0x3E # cs'"
proof (cases cs)
  case Nil
  then show ?thesis using assms(2) by simp
next
  case (Cons d ds)
  show ?thesis
  proof (cases "d = 0x3E")
    case True
    then show ?thesis using Cons by simp
  next
    case False
    then have "takeWhile (\<lambda>x. x \<noteq> 0x3E) cs \<noteq> []" using Cons by simp
    then have "dropWhile (\<lambda>x. x \<noteq> 0x3E) cs = []"
      using assms(1) by (auto simp add: match_tag_def Let_def split: if_splits)
    then have "\<forall>x \<in> set cs. x \<noteq> 0x3E" by auto
    then have "takeWhile (\<lambda>x. x \<noteq> 0x3E) (rev cs @ [0x3C]) =
        rev cs @ takeWhile (\<lambda>x. x \<noteq> 0x3E) [0x3C]"
      by (intro takeWhile_append2) simp
    then have "0x3C \<in> set (takeWhile (\<lambda>x. x \<noteq> 0x3E) (rev (0x3C # cs)))"
      by (simp only: rev.simps) simp
    then show ?thesis using assms(2) by (rule notE [rotated])
  qed
qed

lemma replace_tags_closed:
  "0x3C \<notin> set (takeWhile (\<lambda>x. x \<noteq> 0x3E) (rev xs)) \<Longrightarrow>
   replace_tags (xs @ zs) = replace_tags xs @ replace_tags zs"
proof (induction xs rule: replace_tags.induct)
  case 1
  show ?case by simp
next
  case (2 c cs)
  have cl: "0x3C \<notin> set (takeWhile (\<lambda>x. x \<noteq> 0x3E) (rev cs))"
    using takeWhile_rev_suffix [of "0x3C" _ "[c]" cs] "2.prems" by simp
  show ?case
  proof (cases "match_tag (c # cs)")
    case (Some rest)
    then obtain body where b: "c # cs = 0x3C # body @ 0x3E # rest"
      using match_tag_Some by blast
    then have "c # cs = (0x3C # body @ [0x3E]) @ rest" by simp
    then have "0x3C \<notin> set (takeWhile (\<lambda>x. x \<noteq> 0x3E) (rev rest))"
      using takeWhile_rev_suffix [of "0x3C" _ "0x3C # body @ [0x3E]" rest] "2.prems" by simp
    then have "replace_tags (rest @ zs) = replace_tags rest @ replace_tags zs"
      using "2.IH"(2) Some by simp
    moreover have "match_tag ((c # cs) @ zs) = Some (rest @ zs)"
      using Some by (rule match_tag_append)
    ultimately show ?thesis using Some by simp
  next
    case None
    have ih: "replace_tags (cs @ zs) = replace_tags cs @ replace_tags zs"
      using "2.IH"(1) None cl by simp
    have "match_tag ((c # cs) @ zs) = None"
    proof (cases "c = 0x3C")
      case False
      then show ?thesis by (simp add: match_tag_not_lt)
    next
      case True
      then obtain cs' where "cs = 0x3E # cs'"
        using match_tag_None_closed None "2.prems" by blast
      then show ?thesis using True by (simp add: match_tag_empty_body)
    qed
    then show ?thesis using None ih by simp
  qed
qed

lemma replace_tags_tag:
  "body \<noteq> [] \<Longrightarrow> 0x3E \<notin> set body \<Longrightarrow>
   replace_tags (0x3C # body @ 0x3E # ys) = replace_tags ys"
proof -
  assume b: "body \<noteq> []" "0x3E \<notin> set body"
  have t: "takeWhile (\<lambda>x. x \<noteq> 0x3E) (body @ 0x3E # ys) = body"
    using b(2) by (auto simp add: takeWhile_tail)
  have d: "dropWhile (\<lambda>x. x \<noteq> 0x3E) (body @ 0x3E # ys) = 0x3E # ys"
    using b(2) by (auto simp add: dropWhile_append)
  have "match_tag (0x3C # body @ 0x3E # ys) = Some ys"
    using b(1) by (simp add: match_tag_def t d)
  then show ?thesis by simp
qed

lemma replace_tags_no_gt: "0x3E \<notin> set xs \<Longrightarrow> replace_tags xs = xs"
proof (induction xs rule: replace_tags.induct)
  case 1
  show ?case by simp
next
  case (2 c cs)
  have "match_tag (c # cs) = None"
  proof (cases "match_tag (c # cs)")
    case None
    then show ?thesis .
  next
    case (Some rest)
    then obtain body where "c # cs = 0x3C # body @ 0x3E # rest"
      using match_tag_Some by blast
    then have "0x3E \<in> set (c # cs)" by simp
    then show ?thesis using "2.prems" by simp
  qed
  then show ?case using "2.IH"(1) "2.prems" by simp
qed

lemma removeTag_replace_tags:
  "removeTag t b = (if b then filter (\<lambda>x. x \<noteq> 0x09) (replace_tags t) else replace_tags t)"
  by (simp add: removeTag_def replaceAll_unit_empty Let_def)

section \<open>The claims\<close>

subsection \<open>padStart and padEnd\<close>

text \<open>
  C1, as the specification states it, fails on the code: for every text and every
  \<open>expectCount \<ge> 1\<close> the result would have exactly \<open>expectCount\<close> code units, and
  \<^verbatim>\<open>padStart("12345", "0", 3)\<close> would be \<^verbatim>\<open>"345"\<close>. The code throws a RangeError there
  (the count of paddings is negative), and with an empty \<^verbatim>\<open>addText\<close> nothing is added,
  so \<^verbatim>\<open>padStart("ab", "", 5)\<close> and \<^verbatim>\<open>padEnd("ab", "", 5)\<close> are \<^verbatim>\<open>"ab"\<close>. An array of
  \<open>2^32\<close> paddings cannot be made either.
\<close>

theorem padStart_padEnd_length_counterexample:
  "padStart (Str (js ''12345'')) (js ''0'') 3 \<noteq> Inr (js ''345'') \<and>
   padStart (Str (js ''ab'')) [] 5 = Inr (js ''ab'') \<and>
   padEnd (Str (js ''ab'')) [] 5 = Inr (js ''ab'') \<and>
   length (js ''ab'') \<noteq> 5 \<and>
   padStart (Str []) (js ''0'') (2 ^ 32) = Inl RangeError"
proof -
  have "padStart (Str (js ''12345'')) (js ''0'') 3 \<noteq> Inr (js ''345'')"
    by (simp add: padStart_def Array_filled_def js_def)
  moreover have "padStart (Str (js ''ab'')) [] 5 = Inr (js ''ab'')"
    by (simp add: padStart_def Array_filled_def js_def eval_nat_numeral)
  moreover have "padEnd (Str (js ''ab'')) [] 5 = Inr (js ''ab'')"
    by (simp add: padEnd_def Array_filled_def js_def eval_nat_numeral)
  moreover have "length (js ''ab'') \<noteq> 5"
    by (simp add: js_def)
  moreover have "padStart (Str []) (js ''0'') (2 ^ 32) = Inl RangeError"
    by (simp add: padStart_def Array_filled_def)
  ultimately show ?thesis by blast
qed

text \<open>
  C1, amended: for every text (a string, or a number that is an integer from \<open>-2^53\<close>
  to \<open>2^53 - 1\<close>, which the host writes in plain decimal digits), every non-empty
  \<^verbatim>\<open>addText\<close> and every \<open>expectCount\<close> that is at least the length of the string form
  of the text (and below that length plus \<open>2^32\<close>), \<^verbatim>\<open>padStart\<close> and \<^verbatim>\<open>padEnd\<close>
  return a string of exactly \<open>expectCount\<close> code units, with the string form of the
  text at the right end (\<^verbatim>\<open>padStart\<close>) or at the left end (\<^verbatim>\<open>padEnd\<close>);
  \<^verbatim>\<open>padStart(5, "0", 3)\<close> is \<^verbatim>\<open>"005"\<close> and \<^verbatim>\<open>padEnd("ab", "-", 5)\<close> is \<^verbatim>\<open>"ab---"\<close>.
\<close>

theorem padStart_padEnd_length:
  assumes "addText \<noteq> []"
    and "int (length (toString text)) \<le> expectCount"
    and "expectCount - int (length (toString text)) < 2 ^ 32"
  shows "(\<exists>p. padStart text addText expectCount = Inr (p @ toString text) \<and>
              int (length (p @ toString text)) = expectCount) \<and>
         (\<exists>q. padEnd text addText expectCount = Inr (toString text @ q) \<and>
              int (length (toString text @ q)) = expectCount) \<and>
         padStart (Num 5) (js ''0'') 3 = Inr (js ''005'') \<and>
         padEnd (Str (js ''ab'')) (js ''-'') 5 = Inr (js ''ab---'')"
proof -
  define n where "n = nat (expectCount - int (length (toString text)))"
  define pad where "pad = concat (replicate n addText)"
  have lp: "length pad = n * length addText"
    by (simp add: pad_def length_concat_replicate)
  have "1 \<le> length addText" using assms(1) by (cases addText) simp_all
  then have ge: "n \<le> length pad" by (simp add: lp)
  have cnt: "expectCount = int n + int (length (toString text))"
    using assms(2) by (simp add: n_def)
  have "length pad - n * (length addText - 1) = n"
    using ge by (simp add: lp diff_mult_distrib2)
  then have s: "int (length (drop (n * (length addText - 1)) pad @ toString text)) = expectCount"
    by (simp add: cnt)
  have e: "int (length (toString text @ take n pad)) = expectCount"
    using ge by (simp add: cnt)
  have "padStart text addText expectCount =
      Inr (drop (n * (length addText - 1)) pad @ toString text)"
    using assms by (simp add: padStart_value n_def pad_def)
  with s have 1: "\<exists>p. padStart text addText expectCount = Inr (p @ toString text) \<and>
      int (length (p @ toString text)) = expectCount"
    by blast
  have "padEnd text addText expectCount = Inr (toString text @ take n pad)"
    using assms by (simp add: padEnd_value n_def pad_def)
  with e have 2: "\<exists>q. padEnd text addText expectCount = Inr (toString text @ q) \<and>
      int (length (toString text @ q)) = expectCount"
    by blast
  have 3: "padStart (Num 5) (js ''0'') 3 = Inr (js ''005'')"
    by (simp add: padStart_def Array_filled_def Number_toString_def digits.simps digit_def
        js_def substring_def eval_nat_numeral)
  have 4: "padEnd (Str (js ''ab'')) (js ''-'') 5 = Inr (js ''ab---'')"
    by (simp add: padEnd_def Array_filled_def js_def substring_def eval_nat_numeral)
  from 1 2 3 4 show ?thesis by blast
qed

theorem padStart_padEnd_length_witness:
  "js ''xy'' \<noteq> [] \<and>
   int (length (toString (Str (js ''a'')))) \<le> 4 \<and>
   4 - int (length (toString (Str (js ''a'')))) < 2 ^ 32 \<and>
   (\<exists>p. padStart (Str (js ''a'')) (js ''xy'') 4 = Inr (p @ toString (Str (js ''a''))) \<and>
        int (length (p @ toString (Str (js ''a'')))) = 4) \<and>
   (\<exists>q. padEnd (Str (js ''a'')) (js ''xy'') 4 = Inr (toString (Str (js ''a'')) @ q) \<and>
        int (length (toString (Str (js ''a'')) @ q)) = 4)"
proof -
  have h1: "js ''xy'' \<noteq> []" by (simp add: js_def)
  have h2: "int (length (toString (Str (js ''a'')))) \<le> 4" by (simp add: js_def)
  have h3: "4 - int (length (toString (Str (js ''a'')))) < 2 ^ 32" by (simp add: js_def)
  from padStart_padEnd_length [OF h1 h2 h3] h1 h2 h3 show ?thesis by blast
qed

text \<open>
  C2 holds of \<^verbatim>\<open>toWordArray\<close> (see C5) but not of \<^verbatim>\<open>padStart\<close> and \<^verbatim>\<open>padEnd\<close>: with a
  text longer than \<open>expectCount\<close> the code calls \<^verbatim>\<open>Array\<close> with a negative length,
  which throws a RangeError before the truncation below it is reached.
\<close>

theorem padStart_padEnd_throw:
  "padStart (Str (js ''12345'')) (js ''0'') 3 = Inl RangeError \<and>
   padEnd (Str (js ''12345'')) (js ''0'') 3 = Inl RangeError"
  by (simp add: padStart_def padEnd_def Array_filled_def js_def)

subsection \<open>toCamelFromSnake and toCamelFromKebab\<close>

text \<open>
  C3, as the specification states it, fails on the code: a separator followed by an
  upper-case letter would be left unchanged. The patterns carry the flag \<^verbatim>\<open>i\<close>, so
  the separator before an upper-case letter is removed as well:
  \<^verbatim>\<open>toCamelFromSnake("a_B")\<close> is \<^verbatim>\<open>"aB"\<close>.
\<close>

theorem toCamel_upper_case_counterexample:
  "toCamelFromSnake (js ''a_B'') \<noteq> js ''a_B'' \<and>
   toCamelFromSnake (js ''a_B'') = js ''aB'' \<and>
   toCamelFromKebab (js ''a-B'') \<noteq> js ''a-B'' \<and>
   toCamelFromKebab (js ''a-B'') = js ''aB''"
  by (simp add: toCamelFromSnake_def toCamelFromKebab_def js_def az_ignore_case_def
      toUpperCase_def toUpperCase_unit_def)

text \<open>
  C3, amended: in \<^verbatim>\<open>toCamelFromSnake\<close> and \<^verbatim>\<open>toCamelFromKebab\<close>, only occurrences of
  the separator followed by an ASCII letter, of either case, are transformed: the
  separator is removed and the letter is put in upper case. A separator followed by
  any other code unit (a digit as in \<^verbatim>\<open>"_1"\<close>, another separator) or ending the text
  stays in the output, and the scan goes on at the code unit behind it; every code
  unit that is not a separator stays. So \<^verbatim>\<open>"a_1"\<close> and \<^verbatim>\<open>"a_"\<close> are unchanged and
  \<^verbatim>\<open>"a__b"\<close> becomes \<^verbatim>\<open>"a_B"\<close>.
\<close>

theorem toCamel_letters_either_case:
  "(az_ignore_case c \<longleftrightarrow> (0x61 \<le> c \<and> c \<le> 0x7A) \<or> (0x41 \<le> c \<and> c \<le> 0x5A)) \<and>
   (az_ignore_case c \<longrightarrow>
      toCamelFromSnake (xs @ 0x5F # c # ys) =
        toCamelFromSnake xs @ toUpperCase_unit c # toCamelFromSnake ys \<and>
      toCamelFromKebab (xs @ 0x2D # c # ys) =
        toCamelFromKebab xs @ toUpperCase_unit c # toCamelFromKebab ys) \<and>
   (\<not> az_ignore_case d \<longrightarrow>
      toCamelFromSnake (xs @ 0x5F # d # ys) =
        toCamelFromSnake xs @ 0x5F # toCamelFromSnake (d # ys) \<and>
      toCamelFromKebab (xs @ 0x2D # d # ys) =
        toCamelFromKebab xs @ 0x2D # toCamelFromKebab (d # ys)) \<and>
   toCamelFromSnake (xs @ [0x5F]) = toCamelFromSnake xs @ [0x5F] \<and>
   toCamelFromKebab (xs @ [0x2D]) = toCamelFromKebab xs @ [0x2D] \<and>
   (e \<noteq> 0x5F \<longrightarrow> toCamelFromSnake (e # ys) = e # toCamelFromSnake ys) \<and>
   (e \<noteq> 0x2D \<longrightarrow> toCamelFromKebab (e # ys) = e # toCamelFromKebab ys) \<and>
   toCamelFromSnake [] = [] \<and>
   toCamelFromKebab [] = [] \<and>
   (0x5F \<notin> set xs \<longrightarrow> toCamelFromSnake xs = xs) \<and>
   (0x2D \<notin> set xs \<longrightarrow> toCamelFromKebab xs = xs) \<and>
   toCamelFromSnake (js ''foo_bar_baz'') = js ''fooBarBaz'' \<and>
   toCamelFromKebab (js ''foo-bar-baz'') = js ''fooBarBaz'' \<and>
   toCamelFromSnake (js ''v_1'') = js ''v_1'' \<and>
   toCamelFromSnake (js ''a__b'') = js ''a_B'' \<and>
   toCamelFromSnake (js ''a_'') = js ''a_''"
proof (intro conjI impI)
  show "az_ignore_case c \<longleftrightarrow> (0x61 \<le> c \<and> c \<le> 0x7A) \<or> (0x41 \<le> c \<and> c \<le> 0x5A)"
    by (rule az_ignore_case_def)
next
  assume "az_ignore_case c"
  then show "toCamelFromSnake (xs @ 0x5F # c # ys) =
      toCamelFromSnake xs @ toUpperCase_unit c # toCamelFromSnake ys"
    and "toCamelFromKebab (xs @ 0x2D # c # ys) =
      toCamelFromKebab xs @ toUpperCase_unit c # toCamelFromKebab ys"
    by (rule toCamelFromSnake_letter, rule toCamelFromKebab_letter)
next
  assume "\<not> az_ignore_case d"
  then show "toCamelFromSnake (xs @ 0x5F # d # ys) =
      toCamelFromSnake xs @ 0x5F # toCamelFromSnake (d # ys)"
    and "toCamelFromKebab (xs @ 0x2D # d # ys) =
      toCamelFromKebab xs @ 0x2D # toCamelFromKebab (d # ys)"
    by (rule toCamelFromSnake_other, rule toCamelFromKebab_other)
next
  show "toCamelFromSnake (xs @ [0x5F]) = toCamelFromSnake xs @ [0x5F]"
    by (rule toCamelFromSnake_end)
next
  show "toCamelFromKebab (xs @ [0x2D]) = toCamelFromKebab xs @ [0x2D]"
    by (rule toCamelFromKebab_end)
next
  assume "e \<noteq> 0x5F"
  then show "toCamelFromSnake (e # ys) = e # toCamelFromSnake ys"
    by (rule toCamelFromSnake_skip)
next
  assume "e \<noteq> 0x2D"
  then show "toCamelFromKebab (e # ys) = e # toCamelFromKebab ys"
    by (rule toCamelFromKebab_skip)
next
  show "toCamelFromSnake [] = []" by (simp add: toCamelFromSnake_def)
next
  show "toCamelFromKebab [] = []" by (simp add: toCamelFromKebab_def)
next
  assume "0x5F \<notin> set xs"
  then show "toCamelFromSnake xs = xs" by (rule toCamelFromSnake_plain)
next
  assume "0x2D \<notin> set xs"
  then show "toCamelFromKebab xs = xs" by (rule toCamelFromKebab_plain)
next
  show "toCamelFromSnake (js ''foo_bar_baz'') = js ''fooBarBaz''"
    by (simp add: toCamelFromSnake_def js_def az_ignore_case_def toUpperCase_def
        toUpperCase_unit_def)
next
  show "toCamelFromKebab (js ''foo-bar-baz'') = js ''fooBarBaz''"
    by (simp add: toCamelFromKebab_def js_def az_ignore_case_def toUpperCase_def
        toUpperCase_unit_def)
next
  show "toCamelFromSnake (js ''v_1'') = js ''v_1''"
    by (simp add: toCamelFromSnake_def js_def az_ignore_case_def)
next
  show "toCamelFromSnake (js ''a__b'') = js ''a_B''"
    by (simp add: toCamelFromSnake_def js_def az_ignore_case_def toUpperCase_def
        toUpperCase_unit_def)
next
  show "toCamelFromSnake (js ''a_'') = js ''a_''"
    by (simp add: toCamelFromSnake_def js_def az_ignore_case_def)
qed

theorem toCamel_letters_either_case_witness:
  "az_ignore_case 0x42 \<and>
   toCamelFromSnake (js ''a'' @ 0x5F # 0x42 # js ''c'') =
     toCamelFromSnake (js ''a'') @ toUpperCase_unit 0x42 # toCamelFromSnake (js ''c'') \<and>
   toCamelFromKebab (js ''a'' @ 0x2D # 0x42 # js ''c'') =
     toCamelFromKebab (js ''a'') @ toUpperCase_unit 0x42 # toCamelFromKebab (js ''c'') \<and>
   \<not> az_ignore_case 0x5F \<and>
   toCamelFromSnake (js ''a'' @ 0x5F # 0x5F # js ''c'') =
     toCamelFromSnake (js ''a'') @ 0x5F # toCamelFromSnake (0x5F # js ''c'') \<and>
   toCamelFromKebab (js ''a'' @ 0x2D # 0x5F # js ''c'') =
     toCamelFromKebab (js ''a'') @ 0x2D # toCamelFromKebab (0x5F # js ''c'') \<and>
   (0x31 :: 16 word) \<noteq> 0x5F \<and> (0x31 :: 16 word) \<noteq> 0x2D \<and>
   toCamelFromSnake (0x31 # js ''c'') = 0x31 # toCamelFromSnake (js ''c'') \<and>
   toCamelFromKebab (0x31 # js ''c'') = 0x31 # toCamelFromKebab (js ''c'') \<and>
   0x5F \<notin> set (js ''a'') \<and> 0x2D \<notin> set (js ''a'') \<and>
   toCamelFromSnake (js ''a'') = js ''a'' \<and> toCamelFromKebab (js ''a'') = js ''a''"
proof -
  have h1: "az_ignore_case 0x42" by (simp add: az_ignore_case_def)
  have h2: "\<not> az_ignore_case 0x5F" by (simp add: az_ignore_case_def)
  have h3: "(0x31 :: 16 word) \<noteq> 0x5F" "(0x31 :: 16 word) \<noteq> 0x2D" by simp_all
  have h4: "0x5F \<notin> set (js ''a'')" "0x2D \<notin> set (js ''a'')" by (simp_all add: js_def)
  from toCamel_letters_either_case [of "0x42" "js ''a''" "js ''c''" "0x5F" "0x31"] h1 h2 h3 h4
  show ?thesis by blast
qed

subsection \<open>replaceAll\<close>

text \<open>
  C4, as the specification states it, fails on the code: with a non-empty \<^verbatim>\<open>find\<close>
  that \<^verbatim>\<open>r\<close> does not contain, the result would contain no occurrence of \<^verbatim>\<open>find\<close>.
  The pieces around the replaced occurrences can form a new one where they are
  joined: \<^verbatim>\<open>replaceAll("aab", "ab", "b")\<close> is \<^verbatim>\<open>"ab"\<close>.
\<close>

theorem replaceAll_no_occurrence_counterexample:
  "js ''ab'' \<noteq> [] \<and>
   \<not> sublist (js ''ab'') (js ''b'') \<and>
   replaceAll (js ''aab'') (js ''ab'') (js ''b'') = js ''ab'' \<and>
   sublist (js ''ab'') (replaceAll (js ''aab'') (js ''ab'') (js ''b''))"
  by (simp add: replaceAll_def split_def js_def sublist_Cons_right)

text \<open>
  C4, amended: for every text, \<^verbatim>\<open>find\<close> and \<^verbatim>\<open>r\<close>, if \<^verbatim>\<open>find\<close> is non-empty then
  \<^verbatim>\<open>replaceAll(text, find, r)\<close> is the pieces of the text between the occurrences of
  \<^verbatim>\<open>find\<close>, joined with \<^verbatim>\<open>r\<close>; no piece contains an occurrence of \<^verbatim>\<open>find\<close>, and the
  pieces joined with \<^verbatim>\<open>find\<close> are the text. If \<^verbatim>\<open>find\<close> is a single code unit that \<^verbatim>\<open>r\<close>
  does not contain, the result contains no occurrence of \<^verbatim>\<open>find\<close>. If the text or
  \<^verbatim>\<open>find\<close> is empty, the text is returned unchanged.
\<close>

theorem replaceAll_pieces:
  "(find' \<noteq> [] \<longrightarrow>
      replaceAll text find' r = join r (split text find') \<and>
      join find' (split text find') = text \<and>
      (\<forall>p \<in> set (split text find'). \<not> sublist find' p)) \<and>
   (c \<notin> set r \<longrightarrow> \<not> sublist [c] (replaceAll text [c] r)) \<and>
   (text = [] \<or> find' = [] \<longrightarrow> replaceAll text find' r = text)"
proof (intro conjI impI ballI)
  assume "find' \<noteq> []"
  then show "replaceAll text find' r = join r (split text find')"
    and "join find' (split text find') = text"
    by (rule replaceAll_join_split, rule join_split)
next
  fix p
  assume "find' \<noteq> []" and "p \<in> set (split text find')"
  then show "\<not> sublist find' p" by (rule split_pieces)
next
  assume "c \<notin> set r"
  then show "\<not> sublist [c] (replaceAll text [c] r)"
    by (simp add: sublist_unit replaceAll_unit_absent)
next
  assume "text = [] \<or> find' = []"
  then show "replaceAll text find' r = text" by (auto simp add: replaceAll_def)
qed

theorem replaceAll_pieces_witness:
  "js ''ab'' \<noteq> [] \<and>
   replaceAll (js ''aab'') (js ''ab'') (js ''b'') = join (js ''b'') (split (js ''aab'') (js ''ab'')) \<and>
   join (js ''ab'') (split (js ''aab'') (js ''ab'')) = js ''aab'' \<and>
   js ''a'' \<in> set (split (js ''aab'') (js ''ab'')) \<and>
   \<not> sublist (js ''ab'') (js ''a'') \<and>
   0x09 \<notin> set (js ''b'') \<and>
   \<not> sublist [0x09] (replaceAll (js ''aab'') [0x09] (js ''b'')) \<and>
   replaceAll [] (js ''ab'') (js ''b'') = []"
proof -
  have h1: "js ''ab'' \<noteq> []" by (simp add: js_def)
  have h2: "js ''a'' \<in> set (split (js ''aab'') (js ''ab''))" by (simp add: split_def js_def)
  have h3: "0x09 \<notin> set (js ''b'')" by (simp add: js_def)
  from replaceAll_pieces [of "js ''ab''" "js ''aab''" "js ''b''" "0x09"]
    replaceAll_pieces [of "js ''ab''" "[]" "js ''b''" "0x09"] h1 h2 h3
  show ?thesis by blast
qed

subsection \<open>toWordArray\<close>

text \<open>
  C5: \<^verbatim>\<open>toWordArray\<close> returns for every string (the model is a total function, and
  the result is never a thrown error); the result is the list of the pieces of the
  text between white space, in their order, without the empty ones: no token is
  empty or contains white space, and the tokens together are the code units of the
  text outside white space. For a text of white space only the result is empty,
  and \<^verbatim>\<open>toWordArray("  hello   world  ")\<close> is \<^verbatim>\<open>["hello", "world"]\<close>.
\<close>

theorem toWordArray_returns_tokens:
  "toWordArray text = Inr (tokens text) \<and>
   (\<forall>w \<in> set (tokens text). w \<noteq> [] \<and> (\<forall>c \<in> set w. \<not> is_space c)) \<and>
   concat (tokens text) = filter (\<lambda>c. \<not> is_space c) text \<and>
   (list_all is_space text \<longrightarrow> toWordArray text = Inr []) \<and>
   toWordArray (js ''  hello   world  '') = Inr [js ''hello'', js ''world'']"
proof (intro conjI impI ballI)
  show "toWordArray text = Inr (tokens text)" by (rule toWordArray_tokens)
next
  fix w c
  assume w: "w \<in> set (tokens text)"
  then show "w \<noteq> []" using tokens_props by blast
  assume "c \<in> set w"
  then show "\<not> is_space c" using w tokens_props by blast
next
  show "concat (tokens text) = filter (\<lambda>c. \<not> is_space c) text" by (rule concat_tokens)
next
  assume "list_all is_space text"
  then have "\<forall>c \<in> set text. is_space c" by (simp add: list_all_iff)
  then have "tokens (text @ []) = tokens []" by (rule tokens_spaces)
  then show "toWordArray text = Inr []" by (simp add: toWordArray_tokens tokens_Nil)
next
  have "tokens (js ''  hello   world  '') = [js ''hello'', js ''world'']"
    by (simp add: tokens_def js_def is_space_def)
  then show "toWordArray (js ''  hello   world  '') = Inr [js ''hello'', js ''world'']"
    by (simp add: toWordArray_tokens)
qed

theorem toWordArray_returns_tokens_witness:
  "toWordArray (js '' a  bc '') = Inr (tokens (js '' a  bc '')) \<and>
   js ''bc'' \<in> set (tokens (js '' a  bc '')) \<and>
   js ''bc'' \<noteq> [] \<and> 0x62 \<in> set (js ''bc'') \<and> \<not> is_space 0x62 \<and>
   list_all is_space (js ''   '') \<and>
   toWordArray (js ''   '') = Inr []"
proof -
  have h1: "js ''bc'' \<in> set (tokens (js '' a  bc ''))"
    by (simp add: tokens_def js_def is_space_def)
  have h2: "0x62 \<in> set (js ''bc'')" by (simp add: js_def)
  have h3: "list_all is_space (js ''   '')" by (simp add: js_def is_space_def)
  from toWordArray_returns_tokens [of "js '' a  bc ''"]
    toWordArray_returns_tokens [of "js ''   ''"] h1 h2 h3
  show ?thesis by blast
qed

subsection \<open>toCurrencyFormat\<close>

text \<open>
  C6, as the specification states it, fails on the code: for every numeric price
  the integer part would get \<^verbatim>\<open>replaceChar\<close> every three digits from the right. The
  price \<^verbatim>\<open>1e21\<close> has the string form \<^verbatim>\<open>"1e+21"\<close>, which \<^verbatim>\<open>toFixed(1)\<close> gives back as it
  is, and the result is \<^verbatim>\<open>"1e+"\<close>. And \<^verbatim>\<open>replaceChar\<close> is read as a part of a replacement
  template: with \<^verbatim>\<open>replaceChar = "$$"\<close> the price \<^verbatim>\<open>1000\<close> gives \<^verbatim>\<open>"1$000"\<close>. With
  \<open>fixed = 2^32\<close> the array of padding zeros cannot be made, and a RangeError is thrown.
\<close>

theorem toCurrencyFormat_counterexample:
  "toCurrencyFormat (host_at True (js ''1e+21'') (js ''1e+21'')) ()
     \<lparr>fixed = None, replaceChar = None\<rparr> = Inr (js ''1e+'') \<and>
   toCurrencyFormat (host_at True (js ''1000'') (js ''1000.0'')) ()
     \<lparr>fixed = None, replaceChar = Some (js ''$$'')\<rparr> = Inr (js ''1$000'') \<and>
   toCurrencyFormat (host_at True (js ''1000'') (js ''1000.0'')) ()
     \<lparr>fixed = Some (2 ^ 32), replaceChar = None\<rparr> = Inl RangeError"
proof -
  have "toCurrencyFormat (host_at True (js ''1e+21'') (js ''1e+21'')) ()
     \<lparr>fixed = None, replaceChar = None\<rparr> = Inr (js ''1e+'')"
    by (simp add: toCurrencyFormat_def host_at_def split_def element_def js_def is_digit_def
        substring_def)
  moreover have "toCurrencyFormat (host_at True (js ''1000'') (js ''1000.0'')) ()
     \<lparr>fixed = None, replaceChar = Some (js ''$$'')\<rparr> = Inr (js ''1$000'')"
    by (simp add: toCurrencyFormat_def host_at_def split_def element_def js_def is_digit_def
        substring_def)
  moreover have "toCurrencyFormat (host_at True (js ''1000'') (js ''1000.0'')) ()
     \<lparr>fixed = Some (2 ^ 32), replaceChar = None\<rparr> = Inl RangeError"
    by (simp add: toCurrencyFormat_def host_at_def split_def element_def js_def is_digit_def
        substring_def Array_filled_def)
  ultimately show ?thesis by blast
qed

text \<open>
  C6, amended. Let the numeric predicate accept the price, let the string form of
  the price be an integer part, optionally followed by a full stop and a fraction
  with no further full stop, and let \<^verbatim>\<open>Number(integer part).toFixed(1)\<close> be a sign (no
  digits), decimal digits and \<^verbatim>\<open>".0"\<close>, as it is for every finite number below
  \<open>10^21\<close>. Let \<^verbatim>\<open>replaceChar\<close> (default \<^verbatim>\<open>","\<close>) contain no dollar sign. Then the result
  is the sign and the digits with \<^verbatim>\<open>replaceChar\<close> inserted every three digits from the
  right; when \<open>fixed > 0\<close> (and below \<open>2^32\<close>) it is followed by a full stop and the
  fraction padded with \<^verbatim>\<open>0\<close> or truncated to exactly \<open>fixed\<close> digits; when \<open>fixed\<close> is
  \<open>0\<close> (or less) it is followed by the full stop and the unmodified fraction exactly
  when the string form has a full stop. \<^verbatim>\<open>toCurrencyFormat(1234.5, {fixed: 2})\<close> is
  \<^verbatim>\<open>"1,234.50"\<close> and \<^verbatim>\<open>toCurrencyFormat(1000)\<close> is \<^verbatim>\<open>"1,000"\<close>. For every price that the
  predicate rejects, the result is the string form of the price.
\<close>

theorem toCurrencyFormat_grouping:
  "(\<not> isNumber h price \<longrightarrow> toCurrencyFormat h price options = Inr (String h price)) \<and>
   (isNumber h price \<and>
    String h price = ip @ (case fr of None \<Rightarrow> [] | Some f \<Rightarrow> 0x2E # f) \<and>
    0x2E \<notin> set ip \<and>
    (case fr of None \<Rightarrow> True | Some f \<Rightarrow> 0x2E \<notin> set f) \<and>
    Number_toFixed1 h ip = sg @ ds @ js ''.0'' \<and>
    \<not> (\<exists>c \<in> set sg. is_digit c) \<and>
    list_all is_digit ds \<and>
    rc = (case replaceChar options of None \<Rightarrow> js '','' | Some r \<Rightarrow> r) \<and>
    0x24 \<notin> set rc \<and>
    n = (case fixed options of None \<Rightarrow> 0 | Some k \<Rightarrow> k) \<and>
    n < 2 ^ 32 \<longrightarrow>
    toCurrencyFormat h price options =
      Inr (sg @ group3 rc ds @
           (if 0 < n
            then js ''.'' @
              take (nat n) ((case fr of None \<Rightarrow> [] | Some f \<Rightarrow> f) @ replicate (nat n) 0x30)
            else (case fr of None \<Rightarrow> [] | Some f \<Rightarrow> 0x2E # f)))) \<and>
   toCurrencyFormat (host_at True (js ''1234.5'') (js ''1234.0'')) ()
     \<lparr>fixed = Some 2, replaceChar = None\<rparr> = Inr (js ''1,234.50'') \<and>
   toCurrencyFormat (host_at True (js ''1000'') (js ''1000.0'')) ()
     \<lparr>fixed = None, replaceChar = None\<rparr> = Inr (js ''1,000'')"
proof (intro conjI impI)
  assume "\<not> isNumber h price"
  then show "toCurrencyFormat h price options = Inr (String h price)"
    by (simp add: toCurrencyFormat_def)
next
  assume "isNumber h price \<and>
    String h price = ip @ (case fr of None \<Rightarrow> [] | Some f \<Rightarrow> 0x2E # f) \<and>
    0x2E \<notin> set ip \<and>
    (case fr of None \<Rightarrow> True | Some f \<Rightarrow> 0x2E \<notin> set f) \<and>
    Number_toFixed1 h ip = sg @ ds @ js ''.0'' \<and>
    \<not> (\<exists>c \<in> set sg. is_digit c) \<and>
    list_all is_digit ds \<and>
    rc = (case replaceChar options of None \<Rightarrow> js '','' | Some r \<Rightarrow> r) \<and>
    0x24 \<notin> set rc \<and>
    n = (case fixed options of None \<Rightarrow> 0 | Some k \<Rightarrow> k) \<and>
    n < 2 ^ 32"
  then show "toCurrencyFormat h price options =
      Inr (sg @ group3 rc ds @
           (if 0 < n
            then js ''.'' @
              take (nat n) ((case fr of None \<Rightarrow> [] | Some f \<Rightarrow> f) @ replicate (nat n) 0x30)
            else (case fr of None \<Rightarrow> [] | Some f \<Rightarrow> 0x2E # f)))"
    using toCurrencyFormat_numeric
      [where h = h and price = price and ip = ip and fr = fr and sg = sg and ds = ds
        and rc = rc and options = options and n = n]
    by blast
next
  show "toCurrencyFormat (host_at True (js ''1234.5'') (js ''1234.0'')) ()
     \<lparr>fixed = Some 2, replaceChar = None\<rparr> = Inr (js ''1,234.50'')"
    by (simp add: toCurrencyFormat_def host_at_def split_def element_def js_def is_digit_def
        substring_def Array_filled_def)
next
  show "toCurrencyFormat (host_at True (js ''1000'') (js ''1000.0'')) ()
     \<lparr>fixed = None, replaceChar = None\<rparr> = Inr (js ''1,000'')"
    by (simp add: toCurrencyFormat_def host_at_def split_def element_def js_def is_digit_def
        substring_def)
qed

theorem toCurrencyFormat_grouping_witness:
  "\<not> isNumber (host_at False (js ''abc'') []) () \<and>
   toCurrencyFormat (host_at False (js ''abc'') []) () \<lparr>fixed = None, replaceChar = None\<rparr> =
     Inr (js ''abc'') \<and>
   isNumber (host_at True (js ''-1234567.891'') (js ''-1234567.0'')) () \<and>
   String (host_at True (js ''-1234567.891'') (js ''-1234567.0'')) () =
     js ''-1234567'' @ 0x2E # js ''891'' \<and>
   0x2E \<notin> set (js ''-1234567'') \<and>
   0x2E \<notin> set (js ''891'') \<and>
   Number_toFixed1 (host_at True (js ''-1234567.891'') (js ''-1234567.0'')) (js ''-1234567'') =
     js ''-'' @ js ''1234567'' @ js ''.0'' \<and>
   \<not> (\<exists>c \<in> set (js ''-''). is_digit c) \<and>
   list_all is_digit (js ''1234567'') \<and>
   0x24 \<notin> set (js '' '') \<and>
   (2 :: int) < 2 ^ 32 \<and>
   toCurrencyFormat (host_at True (js ''-1234567.891'') (js ''-1234567.0'')) ()
     \<lparr>fixed = Some 2, replaceChar = Some (js '' '')\<rparr> = Inr (js ''-1 234 567.89'')"
proof -
  let ?h = "host_at True (js ''-1234567.891'') (js ''-1234567.0'')"
  have a1: "\<not> isNumber (host_at False (js ''abc'') []) ()"
    and a2: "String (host_at False (js ''abc'') []) () = js ''abc''"
    by (simp_all add: host_at_def)
  have b1: "isNumber ?h ()" by (simp add: host_at_def)
  have b2: "String ?h () = js ''-1234567'' @ 0x2E # js ''891''" by (simp add: host_at_def js_def)
  have b3: "0x2E \<notin> set (js ''-1234567'')" "0x2E \<notin> set (js ''891'')" by (simp_all add: js_def)
  have b4: "Number_toFixed1 ?h (js ''-1234567'') = js ''-'' @ js ''1234567'' @ js ''.0''"
    by (simp add: host_at_def js_def)
  have b5: "\<not> (\<exists>c \<in> set (js ''-''). is_digit c)" by (simp add: js_def is_digit_def)
  have b6: "list_all is_digit (js ''1234567'')" by (simp add: js_def is_digit_def)
  have b7: "0x24 \<notin> set (js '' '')" by (simp add: js_def)
  have b8: "(2 :: int) < 2 ^ 32" by simp
  have g: "group3 (js '' '') (js ''1234567'') = js ''1 234 567''"
    by (simp add: group3.simps js_def)
  have "toCurrencyFormat ?h () \<lparr>fixed = Some 2, replaceChar = Some (js '' '')\<rparr> =
      Inr (js ''-'' @ group3 (js '' '') (js ''1234567'') @
           (if 0 < (2 :: int)
            then js ''.'' @ take (nat 2) (js ''891'' @ replicate (nat 2) 0x30)
            else 0x2E # js ''891''))"
    using toCurrencyFormat_grouping
      [of ?h "()" "\<lparr>fixed = Some 2, replaceChar = Some (js '' '')\<rparr>" "js ''-1234567''"
        "Some (js ''891'')" "js ''-''" "js ''1234567''" "js '' ''" 2]
      b1 b2 b3 b4 b5 b6 b7
    by simp
  then have r: "toCurrencyFormat ?h () \<lparr>fixed = Some 2, replaceChar = Some (js '' '')\<rparr> =
      Inr (js ''-1 234 567.89'')"
    by (simp add: g) (simp add: js_def)
  have "toCurrencyFormat (host_at False (js ''abc'') []) () \<lparr>fixed = None, replaceChar = None\<rparr> =
      Inr (js ''abc'')"
    using toCurrencyFormat_grouping
      [of "host_at False (js ''abc'') []" "()" "\<lparr>fixed = None, replaceChar = None\<rparr>"]
      a1 a2
    by simp
  with a1 b1 b2 b3 b4 b5 b6 b7 b8 r show ?thesis by blast
qed

subsection \<open>collapseMultiline\<close>

text \<open>
  C7, as the specification states it, fails on the code: in the output every run of
  consecutive blank lines would have at most \<open>allow - 1\<close> lines, for every text and
  every \<open>allow\<close>. When no line is kept the output is the empty string, which is one
  blank line: \<^verbatim>\<open>collapseMultiline("", 1)\<close> is \<^verbatim>\<open>""\<close>, a run of one against a bound of
  \<open>0\<close>. And the counter is compared with \<open>allow\<close> itself, so with \<open>allow = 1.5\<close> one
  blank line of a run stays, against a bound of \<open>0.5\<close>.
\<close>

theorem collapseMultiline_counterexample:
  "collapseMultiline [] 1 = [] \<and>
   split (collapseMultiline [] 1) [0x0A] = [[]] \<and>
   isBreak [] \<and>
   \<not> real (length [[] :: jsstring]) \<le> 1 - 1 \<and>
   collapseMultiline (js ''a'' @ [0x0A, 0x0A] @ js ''b'') (3 / 2) =
     js ''a'' @ [0x0A, 0x0A] @ js ''b'' \<and>
   split (js ''a'' @ [0x0A, 0x0A] @ js ''b'') [0x0A] = [js ''a'', [], js ''b''] \<and>
   \<not> real (length [[] :: jsstring]) \<le> 3 / 2 - 1"
proof -
  have "collapseMultiline [] 1 = []"
    by (simp add: collapseMultiline_def split_def isBreak_def)
  moreover have "split (collapseMultiline [] 1) [0x0A] = [[]]"
    by (simp add: collapseMultiline_def split_def isBreak_def)
  moreover have "isBreak []" by (simp add: isBreak_def)
  moreover have "\<not> real (length [[] :: jsstring]) \<le> 1 - 1" by simp
  moreover have "collapseMultiline (js ''a'' @ [0x0A, 0x0A] @ js ''b'') (3 / 2) =
      js ''a'' @ [0x0A, 0x0A] @ js ''b''"
    by (simp add: collapseMultiline_def split_def js_def isBreak_def is_space_def)
  moreover have "split (js ''a'' @ [0x0A, 0x0A] @ js ''b'') [0x0A] = [js ''a'', [], js ''b'']"
    by (simp add: split_def js_def)
  moreover have "\<not> real (length [[] :: jsstring]) \<le> 3 / 2 - 1" by simp
  ultimately show ?thesis by blast
qed

text \<open>
  C7, amended: for every text and every finite number \<open>allow\<close>, the result of
  \<^verbatim>\<open>collapseMultiline\<close> is the kept lines joined with a line feed, where of the lines
  of the text every line that is not blank is kept, and of every run of consecutive
  blank lines the first \<open>ceiling allow - 1\<close> are kept (none when that is not
  positive): the count starts anew behind every line that is not blank. So every
  run of consecutive blank lines among the kept lines has fewer than \<open>allow\<close> lines,
  which is at most \<open>allow - 1\<close> when \<open>allow\<close> is an integer. When a line is kept at
  all, the lines of the result are the kept lines; when none is kept, the result is
  the empty string. \<^verbatim>\<open>collapseMultiline("a\n\n\n\nb", 2)\<close> is \<^verbatim>\<open>"a\n\nb"\<close>.
\<close>

theorem collapseMultiline_kept_lines:
  "collapseMultiline text allow =
     join [0x0A] (cut_blank_runs (nat (\<lceil>allow\<rceil> - 1)) (split text [0x0A])) \<and>
   (cut_blank_runs (nat (\<lceil>allow\<rceil> - 1)) (split text [0x0A]) \<noteq> [] \<longrightarrow>
      split (collapseMultiline text allow) [0x0A] =
        cut_blank_runs (nat (\<lceil>allow\<rceil> - 1)) (split text [0x0A])) \<and>
   (cut_blank_runs (nat (\<lceil>allow\<rceil> - 1)) (split text [0x0A]) = [] \<longrightarrow>
      collapseMultiline text allow = []) \<and>
   (list_all isBreak bs \<and> \<not> isBreak l \<longrightarrow>
      collapse_lines allow (bs @ l # ls) 0 [] =
        take (nat (\<lceil>allow\<rceil> - 1)) bs @ l # collapse_lines allow ls 0 []) \<and>
   (list_all isBreak bs \<longrightarrow>
      collapse_lines allow bs 0 [] = take (nat (\<lceil>allow\<rceil> - 1)) bs) \<and>
   subseq (cut_blank_runs (nat (\<lceil>allow\<rceil> - 1)) (split text [0x0A])) (split text [0x0A]) \<and>
   filter (\<lambda>l. \<not> isBreak l) (cut_blank_runs (nat (\<lceil>allow\<rceil> - 1)) (split text [0x0A])) =
     filter (\<lambda>l. \<not> isBreak l) (split text [0x0A]) \<and>
   (\<forall>ys. ys \<noteq> [] \<and>
         sublist ys (cut_blank_runs (nat (\<lceil>allow\<rceil> - 1)) (split text [0x0A])) \<and>
         list_all isBreak ys \<longrightarrow>
         real (length ys) < allow \<and> (\<forall>a. allow = of_int a \<longrightarrow> int (length ys) \<le> a - 1)) \<and>
   collapseMultiline (js ''a'' @ [0x0A, 0x0A, 0x0A, 0x0A] @ js ''b'') 2 =
     js ''a'' @ [0x0A, 0x0A] @ js ''b''"
proof -
  let ?k = "nat (\<lceil>allow\<rceil> - 1)"
  let ?lines = "split text [0x0A]"
  let ?kept = "cut_blank_runs ?k ?lines"
  have kept: "collapse_lines allow ?lines 0 [] = ?kept" by (rule collapse_lines_cut)
  have 1: "collapseMultiline text allow = join [0x0A] ?kept"
    by (simp add: collapseMultiline_def kept)
  have 2: "?kept \<noteq> [] \<longrightarrow> split (collapseMultiline text allow) [0x0A] = ?kept"
  proof
    assume ne: "?kept \<noteq> []"
    have "\<forall>p \<in> set ?lines. 0x0A \<notin> set p"
      using split_scan_unit_pieces [of "0x0A" "[]" _ "text"] by (simp add: split_def)
    moreover have "set ?kept \<subseteq> set ?lines"
      using list_emb_set [OF collapse_lines_subseq [of allow ?lines 0]] kept by auto
    ultimately have "\<forall>p \<in> set ?kept. 0x0A \<notin> set p" by blast
    with ne have "split (join [0x0A] ?kept) [0x0A] = ?kept" by (rule split_join_unit)
    then show "split (collapseMultiline text allow) [0x0A] = ?kept" by (simp only: 1)
  qed
  have 3: "?kept = [] \<longrightarrow> collapseMultiline text allow = []"
    by (simp add: 1)
  have 4: "list_all isBreak bs \<and> \<not> isBreak l \<longrightarrow>
      collapse_lines allow (bs @ l # ls) 0 [] =
        take ?k bs @ l # collapse_lines allow ls 0 []"
    using collapse_lines_run by blast
  have 5: "list_all isBreak bs \<longrightarrow> collapse_lines allow bs 0 [] = take ?k bs"
    using collapse_lines_all_blank by blast
  have 6: "subseq ?kept ?lines"
    using collapse_lines_subseq [of allow ?lines 0] by (simp only: kept)
  have 7: "filter (\<lambda>l. \<not> isBreak l) ?kept = filter (\<lambda>l. \<not> isBreak l) ?lines"
    using collapse_lines_nonblank [of allow ?lines 0] by (simp only: kept)
  have 8: "\<forall>ys. ys \<noteq> [] \<and> sublist ys ?kept \<and> list_all isBreak ys \<longrightarrow>
      real (length ys) < allow \<and> (\<forall>a. allow = of_int a \<longrightarrow> int (length ys) \<le> a - 1)"
  proof (intro allI impI)
    fix ys
    assume a: "ys \<noteq> [] \<and> sublist ys ?kept \<and> list_all isBreak ys"
    then have "\<forall>l \<in> set ys. isBreak l" by (simp add: list_all_iff)
    with a have b: "int (length ys) \<le> \<lceil>allow\<rceil> - 1"
      using blank_sublist_bound [of ys allow ?lines 0] kept by simp
    then have "int (length ys) < \<lceil>allow\<rceil>" by simp
    then have "real_of_int (int (length ys)) < allow" by (simp only: less_ceiling_iff)
    then have c: "real (length ys) < allow" by simp
    have "\<forall>a. allow = of_int a \<longrightarrow> int (length ys) \<le> a - 1"
      using b by auto
    with c show "real (length ys) < allow \<and> (\<forall>a. allow = of_int a \<longrightarrow> int (length ys) \<le> a - 1)"
      by blast
  qed
  have 9: "collapseMultiline (js ''a'' @ [0x0A, 0x0A, 0x0A, 0x0A] @ js ''b'') 2 =
      js ''a'' @ [0x0A, 0x0A] @ js ''b''"
    by (simp add: collapseMultiline_def split_def js_def isBreak_def is_space_def)
  from 1 2 3 4 5 6 7 8 9 show ?thesis by (intro conjI)
qed

theorem collapseMultiline_kept_lines_witness:
  "cut_blank_runs (nat (\<lceil>5 / 2 :: real\<rceil> - 1)) (split (js ''a'' @ [0x0A, 0x0A, 0x0A, 0x0A] @ js ''b'') [0x0A]) =
     [js ''a'', [], [], js ''b''] \<and>
   [js ''a'', [], [], js ''b''] \<noteq> [] \<and>
   split (collapseMultiline (js ''a'' @ [0x0A, 0x0A, 0x0A, 0x0A] @ js ''b'') (5 / 2)) [0x0A] =
     [js ''a'', [], [], js ''b''] \<and>
   cut_blank_runs (nat (\<lceil>1 :: real\<rceil> - 1)) (split [0x0A] [0x0A]) = [] \<and>
   collapseMultiline [0x0A] 1 = [] \<and>
   list_all isBreak [[], [], []] \<and> \<not> isBreak (js ''a'') \<and>
   collapse_lines (5 / 2) ([[], [], []] @ js ''a'' # [[]]) 0 [] =
     take (nat (\<lceil>5 / 2 :: real\<rceil> - 1)) [[], [], []] @ js ''a'' # collapse_lines (5 / 2) [[]] 0 [] \<and>
   collapse_lines (5 / 2) [[], [], []] 0 [] = take (nat (\<lceil>5 / 2 :: real\<rceil> - 1)) [[], [], []] \<and>
   [[], []] \<noteq> ([] :: jsstring list) \<and>
   sublist [[], []] [js ''a'', [], [], js ''b''] \<and>
   list_all isBreak [[], []] \<and>
   real (length [[] :: jsstring, []]) < 5 / 2 \<and>
   sublist [[]] (cut_blank_runs (nat (\<lceil>2 :: real\<rceil> - 1))
     (split (js ''a'' @ [0x0A, 0x0A, 0x0A, 0x0A] @ js ''b'') [0x0A])) \<and>
   (2 :: real) = of_int 2 \<and>
   int (length [[] :: jsstring]) \<le> 2 - 1"
proof -
  let ?t = "js ''a'' @ [0x0A, 0x0A, 0x0A, 0x0A] @ js ''b''"
  have c52: "\<lceil>5 / 2 :: real\<rceil> = 3" by (simp add: ceiling_eq_iff)
  have sp: "split ?t [0x0A] = [js ''a'', [], [], [], js ''b'']"
    by (simp add: split_def js_def)
  have h1: "cut_blank_runs (nat (\<lceil>5 / 2 :: real\<rceil> - 1)) (split ?t [0x0A]) =
      [js ''a'', [], [], js ''b'']"
    by (simp only: c52 sp) (simp add: cut_blank_runs.simps isBreak_def js_def is_space_def)
  have h1b: "cut_blank_runs (nat (\<lceil>2 :: real\<rceil> - 1)) (split ?t [0x0A]) = [js ''a'', [], js ''b'']"
    by (simp only: sp) (simp add: cut_blank_runs.simps isBreak_def js_def is_space_def)
  have h2: "cut_blank_runs (nat (\<lceil>1 :: real\<rceil> - 1)) (split [0x0A] [0x0A]) = []"
    by (simp add: split_def cut_blank_runs.simps isBreak_def)
  have h3: "list_all isBreak [[], [], []]" "\<not> isBreak (js ''a'')" "list_all isBreak [[], []]"
    "list_all isBreak [[]]"
    by (simp_all add: isBreak_def js_def is_space_def)
  have h4: "sublist [[], []] [js ''a'', [], [], js ''b'']" "sublist [[]] [js ''a'', [], js ''b'']"
    by (simp_all add: sublist_Cons_right js_def)
  have h5: "[js ''a'', [], [], js ''b''] \<noteq> []" "[[], []] \<noteq> ([] :: jsstring list)"
    "[[]] \<noteq> ([] :: jsstring list)"
    by simp_all
  have h6: "(2 :: real) = of_int 2" by simp
  note t1 = collapseMultiline_kept_lines [of ?t "5 / 2" "[[], [], []]" "js ''a''" "[[]]", unfolded h1]
  note t2 = collapseMultiline_kept_lines [of "[0x0A]" 1 "[[], [], []]" "js ''a''" "[[]]", unfolded h2]
  note t3 = collapseMultiline_kept_lines [of ?t 2 "[[], [], []]" "js ''a''" "[[]]", unfolded h1b]
  from t1 h3 h4 h5 have a: "split (collapseMultiline ?t (5 / 2)) [0x0A] = [js ''a'', [], [], js ''b'']"
    and b: "collapse_lines (5 / 2) ([[], [], []] @ js ''a'' # [[]]) 0 [] =
      take (nat (\<lceil>5 / 2 :: real\<rceil> - 1)) [[], [], []] @ js ''a'' # collapse_lines (5 / 2) [[]] 0 []"
    and c: "collapse_lines (5 / 2) [[], [], []] 0 [] = take (nat (\<lceil>5 / 2 :: real\<rceil> - 1)) [[], [], []]"
    and d: "real (length [[] :: jsstring, []]) < 5 / 2"
    by blast+
  from t2 have e: "collapseMultiline [0x0A] 1 = []" by blast
  from t3 h3 h4 h5 h6 have f: "int (length [[] :: jsstring]) \<le> 2 - 1" by blast
  have g: "sublist [[]] (cut_blank_runs (nat (\<lceil>2 :: real\<rceil> - 1)) (split ?t [0x0A]))"
    by (simp only: h1b h4(2))
  show ?thesis
    by (intro conjI h1 h5(1) a h2 e h3(1) h3(2) b c h5(2) h4(1) h3(3) d g h6 f)
qed

subsection \<open>toEllipsisMiddle and toEllipsisEnd\<close>

text \<open>
  C8: for a falsy text (absent, or the empty string) \<^verbatim>\<open>toEllipsisEnd\<close> returns
  \<^verbatim>\<open>null\<close> and \<^verbatim>\<open>toEllipsisMiddle\<close> returns the text as it is. For a text longer than
  \<open>max\<close>, \<^verbatim>\<open>toEllipsisEnd\<close> returns the first \<open>max\<close> code units followed by the
  alternative, and \<^verbatim>\<open>toEllipsisMiddle\<close> the first and the last \<open>floor (max / 2)\<close> code
  units with the alternative between them (none where that number is negative).
  Otherwise both return the text unchanged.
\<close>

theorem toEllipsis_cases:
  "(falsy text \<longrightarrow>
      toEllipsisEnd text max' alternative = None \<and>
      toEllipsisMiddle text max' alternative = text) \<and>
   (t \<noteq> [] \<and> max' < int (length t) \<longrightarrow>
      toEllipsisEnd (Some t) max' alternative = Some (take (nat max') t @ alternative) \<and>
      toEllipsisMiddle (Some t) max' alternative =
        Some (take (nat (max' div 2)) t @ alternative @ drop (length t - nat (max' div 2)) t)) \<and>
   (t \<noteq> [] \<and> int (length t) \<le> max' \<longrightarrow>
      toEllipsisEnd (Some t) max' alternative = Some t \<and>
      toEllipsisMiddle (Some t) max' alternative = Some t) \<and>
   toEllipsisEnd (Some (js ''abcdefghij'')) 4 (js ''...'') = Some (js ''abcd...'') \<and>
   toEllipsisMiddle (Some (js ''abcdefghij'')) 4 (js ''...'') = Some (js ''ab...ij'')"
proof (intro conjI impI)
  assume "falsy text"
  then show "toEllipsisEnd text max' alternative = None"
    and "toEllipsisMiddle text max' alternative = text"
    by (simp_all add: toEllipsisEnd_def toEllipsisMiddle_def)
next
  assume a: "t \<noteq> [] \<and> max' < int (length t)"
  then show "toEllipsisEnd (Some t) max' alternative = Some (take (nat max') t @ alternative)"
    by (simp add: toEllipsisEnd_def falsy_def substring_take)
  have "max' div 2 < int (length t)" using a by linarith
  then have "substring t (int (length t) - max' div 2) (int (length t))
      = drop (length t - nat (max' div 2)) t"
    by (rule substring_drop)
  then show "toEllipsisMiddle (Some t) max' alternative =
        Some (take (nat (max' div 2)) t @ alternative @ drop (length t - nat (max' div 2)) t)"
    using a by (simp add: toEllipsisMiddle_def falsy_def substring_take Let_def)
next
  assume "t \<noteq> [] \<and> int (length t) \<le> max'"
  then show "toEllipsisEnd (Some t) max' alternative = Some t"
    and "toEllipsisMiddle (Some t) max' alternative = Some t"
    by (simp_all add: toEllipsisEnd_def toEllipsisMiddle_def falsy_def)
next
  show "toEllipsisEnd (Some (js ''abcdefghij'')) 4 (js ''...'') = Some (js ''abcd...'')"
    by (simp add: toEllipsisEnd_def falsy_def substring_def js_def)
next
  show "toEllipsisMiddle (Some (js ''abcdefghij'')) 4 (js ''...'') = Some (js ''ab...ij'')"
    by (simp add: toEllipsisMiddle_def falsy_def substring_def js_def)
qed

theorem toEllipsis_cases_witness:
  "falsy (Some []) \<and> falsy None \<and>
   toEllipsisEnd (Some []) 5 (js ''...'') = None \<and>
   toEllipsisMiddle (Some []) 5 (js ''...'') = Some [] \<and>
   toEllipsisEnd None 5 (js ''...'') = None \<and>
   toEllipsisMiddle None 5 (js ''...'') = None \<and>
   js ''abcdefg'' \<noteq> [] \<and> 5 < int (length (js ''abcdefg'')) \<and>
   toEllipsisEnd (Some (js ''abcdefg'')) 5 (js ''...'') =
     Some (take (nat 5) (js ''abcdefg'') @ js ''...'') \<and>
   toEllipsisMiddle (Some (js ''abcdefg'')) 5 (js ''...'') =
     Some (take (nat (5 div 2)) (js ''abcdefg'') @ js ''...'' @
           drop (length (js ''abcdefg'') - nat (5 div 2)) (js ''abcdefg'')) \<and>
   js ''abc'' \<noteq> [] \<and> int (length (js ''abc'')) \<le> 5 \<and>
   toEllipsisEnd (Some (js ''abc'')) 5 (js ''...'') = Some (js ''abc'') \<and>
   toEllipsisMiddle (Some (js ''abc'')) 5 (js ''...'') = Some (js ''abc'')"
proof -
  have h1: "falsy (Some [])" "falsy None" by (simp_all add: falsy_def)
  have h2: "js ''abcdefg'' \<noteq> []" "5 < int (length (js ''abcdefg''))" by (simp_all add: js_def)
  have h3: "js ''abc'' \<noteq> []" "int (length (js ''abc'')) \<le> 5" by (simp_all add: js_def)
  from toEllipsis_cases [of "Some []" 5 "js ''...''" "js ''abcdefg''"]
    toEllipsis_cases [of None 5 "js ''...''" "js ''abc''"] h1 h2 h3
  show ?thesis by blast
qed

subsection \<open>escape\<close>

text \<open>
  C9: \<^verbatim>\<open>escape\<close> replaces, in one pass, every \<^verbatim>\<open><\<close>, \<^verbatim>\<open>>\<close> and \<^verbatim>\<open>&\<close> by its entity and
  leaves every other code unit as it is. It is not idempotent: for every text with
  at least one of the three, escaping the result again gives a different string.
  \<^verbatim>\<open>escape("<a & b>")\<close> is \<^verbatim>\<open>"&lt;a &amp; b&gt;"\<close>.
\<close>

theorem escape_single_pass_not_idempotent:
  "escape text = concat (map entity text) \<and>
   ((\<exists>c \<in> set x. c = 0x3C \<or> c = 0x3E \<or> c = 0x26) \<longrightarrow> escape (escape x) \<noteq> escape x) \<and>
   escape (js ''<a & b>'') = js ''&lt;a &amp; b&gt;''"
proof (intro conjI impI)
  show "escape text = concat (map entity text)" by (rule escape_concat)
next
  assume "\<exists>c \<in> set x. c = 0x3C \<or> c = 0x3E \<or> c = 0x26"
  then have "0x26 \<in> set (escape x)" by (rule amp_in_escape)
  then have "length (escape x) < length (escape (escape x))" by (rule length_escape_gt)
  then show "escape (escape x) \<noteq> escape x" by auto
next
  show "escape (js ''<a & b>'') = js ''&lt;a &amp; b&gt;''"
    by (simp add: escape_def escape_match_def js_def)
qed

theorem escape_single_pass_not_idempotent_witness:
  "(\<exists>c \<in> set (js ''a<b''). c = 0x3C \<or> c = 0x3E \<or> c = 0x26) \<and>
   escape (js ''a<b'') = js ''a&lt;b'' \<and>
   escape (escape (js ''a<b'')) = js ''a&amp;lt;b'' \<and>
   escape (escape (js ''a<b'')) \<noteq> escape (js ''a<b'')"
proof -
  have h1: "\<exists>c \<in> set (js ''a<b''). c = 0x3C \<or> c = 0x3E \<or> c = 0x26" by (simp add: js_def)
  have h2: "escape (js ''a<b'') = js ''a&lt;b''"
    by (simp add: escape_def escape_match_def js_def)
  have h3: "escape (escape (js ''a<b'')) = js ''a&amp;lt;b''"
    by (simp add: escape_def escape_match_def js_def)
  from escape_single_pass_not_idempotent [of "js ''a<b''" "js ''a<b''"] h1 h2 h3
  show ?thesis by blast
qed

subsection \<open>removeTag\<close>

text \<open>
  C10, as stated, fails on the code: the substring \<^verbatim>\<open><>\<close> would be left unchanged
  in the output for every input. Behind an unclosed \<^verbatim>\<open><\<close> it is the end of a larger
  match and is removed with it: \<^verbatim>\<open>removeTag("<<>")\<close> is the empty string.
\<close>

theorem removeTag_empty_tag_counterexample:
  "sublist (js ''<>'') (js ''<<>'') \<and>
   removeTag (js ''<<>'') True = [] \<and>
   removeTag (js ''<<>'') False = [] \<and>
   \<not> sublist (js ''<>'') (removeTag (js ''<<>'') False)"
  by (simp add: removeTag_def match_tag_def replaceAll_def js_def sublist_Cons_right)

text \<open>
  C10, amended: \<^verbatim>\<open>removeTag\<close> removes, from the left, the substrings made of a \<^verbatim>\<open><\<close>,
  at least one character other than \<^verbatim>\<open>>\<close>, and a \<^verbatim>\<open>>\<close> (and the tab characters, when
  asked to), and nothing else. So the two characters \<^verbatim>\<open><>\<close> are no match by
  themselves: they are left unchanged in the output whenever no \<^verbatim>\<open><\<close> stands between
  them and the last \<^verbatim>\<open>>\<close> before them (or the start of the text), also behind
  removed tags, as in \<^verbatim>\<open>removeTag("<b>x</b><>") = "x<>"\<close>. Behind such an unclosed \<^verbatim>\<open><\<close>
  they are the end of a match that starts there and are removed with it, as in
  \<^verbatim>\<open>removeTag("<<>") = ""\<close>.

  In the statement, \<open>xs\<close> has no unclosed \<^verbatim>\<open><\<close> when no \<^verbatim>\<open><\<close> is among the characters
  of \<open>xs\<close> behind its last \<^verbatim>\<open>>\<close>, which are \<open>takeWhile (\<lambda>x. x \<noteq> 0x3E) (rev xs)\<close>.
\<close>

theorem removeTag_empty_tag_kept:
  "(0x3C \<notin> set (takeWhile (\<lambda>x. x \<noteq> 0x3E) (rev xs)) \<longrightarrow>
      removeTag (xs @ zs) b = removeTag xs b @ removeTag zs b \<and>
      removeTag (xs @ js ''<>'' @ ys) b = removeTag xs b @ js ''<>'' @ removeTag ys b \<and>
      (0x3E \<notin> set mid \<longrightarrow>
         removeTag (xs @ 0x3C # mid @ js ''<>'' @ ys) b = removeTag xs b @ removeTag ys b)) \<and>
   (body \<noteq> [] \<and> 0x3E \<notin> set body \<longrightarrow>
      removeTag (0x3C # body @ 0x3E # ys) b = removeTag ys b) \<and>
   removeTag (js ''<>'' @ ys) b = js ''<>'' @ removeTag ys b \<and>
   (\<not> (\<exists>d. d \<noteq> 0x3E \<and> sublist [0x3C, d] text) \<or> 0x3E \<notin> set text \<longrightarrow>
      removeTag text False = text \<and> removeTag text True = filter (\<lambda>x. x \<noteq> 0x09) text) \<and>
   removeTag (js ''<>'') b = js ''<>'' \<and>
   removeTag (js ''<b>x</b><>'') b = js ''x<>'' \<and>
   removeTag (js ''<b>hello</b>'' @ [0x09] @ js ''world'') True = js ''helloworld''"
proof -
  have empty: "\<And>ys. replace_tags (js ''<>'' @ ys) = js ''<>'' @ replace_tags ys"
    using replace_tags_empty_tag by (simp add: js_def)
  have 1: "0x3C \<notin> set (takeWhile (\<lambda>x. x \<noteq> 0x3E) (rev xs)) \<longrightarrow>
      removeTag (xs @ zs) b = removeTag xs b @ removeTag zs b \<and>
      removeTag (xs @ js ''<>'' @ ys) b = removeTag xs b @ js ''<>'' @ removeTag ys b \<and>
      (0x3E \<notin> set mid \<longrightarrow>
         removeTag (xs @ 0x3C # mid @ js ''<>'' @ ys) b = removeTag xs b @ removeTag ys b)"
  proof (intro impI conjI)
    assume cl: "0x3C \<notin> set (takeWhile (\<lambda>x. x \<noteq> 0x3E) (rev xs))"
    then have ap: "\<And>zs. replace_tags (xs @ zs) = replace_tags xs @ replace_tags zs"
      by (rule replace_tags_closed)
    show "removeTag (xs @ zs) b = removeTag xs b @ removeTag zs b"
      by (simp add: removeTag_replace_tags ap)
    have "filter (\<lambda>x. x \<noteq> 0x09) (js ''<>'') = js ''<>''" by (simp add: js_def)
    then show "removeTag (xs @ js ''<>'' @ ys) b = removeTag xs b @ js ''<>'' @ removeTag ys b"
      by (simp add: removeTag_replace_tags ap empty)
    assume mid: "0x3E \<notin> set mid"
    have "0x3C # mid @ js ''<>'' @ ys = 0x3C # (mid @ [0x3C]) @ 0x3E # ys"
      by (simp add: js_def)
    moreover have "replace_tags (0x3C # (mid @ [0x3C]) @ 0x3E # ys) = replace_tags ys"
      using mid by (intro replace_tags_tag) simp_all
    ultimately have "replace_tags (0x3C # mid @ js ''<>'' @ ys) = replace_tags ys" by simp
    then show "removeTag (xs @ 0x3C # mid @ js ''<>'' @ ys) b = removeTag xs b @ removeTag ys b"
      by (simp add: removeTag_replace_tags ap)
  qed
  have 2: "body \<noteq> [] \<and> 0x3E \<notin> set body \<longrightarrow>
      removeTag (0x3C # body @ 0x3E # ys) b = removeTag ys b"
    using replace_tags_tag [of body ys]
    by (simp add: removeTag_replace_tags del: replace_tags.simps)
  have 3: "removeTag (js ''<>'' @ ys) b = js ''<>'' @ removeTag ys b"
  proof -
    have "filter (\<lambda>x. x \<noteq> 0x09) (js ''<>'') = js ''<>''" by (simp add: js_def)
    then show ?thesis by (simp add: removeTag_replace_tags empty)
  qed
  have 4: "\<not> (\<exists>d. d \<noteq> 0x3E \<and> sublist [0x3C, d] text) \<or> 0x3E \<notin> set text \<longrightarrow>
      removeTag text False = text \<and> removeTag text True = filter (\<lambda>x. x \<noteq> 0x09) text"
  proof
    assume "\<not> (\<exists>d. d \<noteq> 0x3E \<and> sublist [0x3C, d] text) \<or> 0x3E \<notin> set text"
    then have "replace_tags text = text"
    proof
      assume "\<not> (\<exists>d. d \<noteq> 0x3E \<and> sublist [0x3C, d] text)"
      then have "\<And>d. sublist [0x3C, d] text \<Longrightarrow> d = 0x3E" by blast
      then show ?thesis by (rule replace_tags_unchanged)
    next
      assume "0x3E \<notin> set text"
      then show ?thesis by (rule replace_tags_no_gt)
    qed
    then show "removeTag text False = text \<and>
        removeTag text True = filter (\<lambda>x. x \<noteq> 0x09) text"
      by (simp add: removeTag_replace_tags)
  qed
  have 5: "removeTag (js ''<>'') b = js ''<>''"
    by (simp add: removeTag_def match_tag_def replaceAll_unit_empty js_def Let_def)
  have 6: "removeTag (js ''<b>x</b><>'') b = js ''x<>''"
    by (simp add: removeTag_def match_tag_def replaceAll_unit_empty js_def Let_def)
  have 7: "removeTag (js ''<b>hello</b>'' @ [0x09] @ js ''world'') True = js ''helloworld''"
    by (simp add: removeTag_def match_tag_def replaceAll_unit_empty js_def Let_def)
  from 1 2 3 4 5 6 7 show ?thesis by (intro conjI)
qed

theorem removeTag_empty_tag_kept_witness:
  "0x3C \<notin> set (takeWhile (\<lambda>x. x \<noteq> 0x3E) (rev (js ''<b>x</b>''))) \<and>
   removeTag (js ''<b>x</b>'' @ js ''<i>y'') True =
     removeTag (js ''<b>x</b>'') True @ removeTag (js ''<i>y'') True \<and>
   removeTag (js ''<b>x</b>'' @ js ''<>'' @ js ''<i>y'') True =
     removeTag (js ''<b>x</b>'') True @ js ''<>'' @ removeTag (js ''<i>y'') True \<and>
   0x3E \<notin> set (js ''a'') \<and>
   removeTag (js ''<b>x</b>'' @ 0x3C # js ''a'' @ js ''<>'' @ js ''<i>y'') True =
     removeTag (js ''<b>x</b>'') True @ removeTag (js ''<i>y'') True \<and>
   js ''a'' \<noteq> [] \<and>
   removeTag (0x3C # js ''a'' @ 0x3E # js ''<i>y'') True = removeTag (js ''<i>y'') True \<and>
   \<not> (\<exists>d. d \<noteq> 0x3E \<and> sublist [0x3C, d] (js ''a<>b'')) \<and>
   removeTag (js ''a<>b'') False = js ''a<>b'' \<and>
   removeTag (js ''a<>b'') True = filter (\<lambda>x. x \<noteq> 0x09) (js ''a<>b'')"
proof -
  have h1: "0x3C \<notin> set (takeWhile (\<lambda>x. x \<noteq> 0x3E) (rev (js ''<b>x</b>'')))"
    by (simp add: js_def)
  have h2: "0x3E \<notin> set (js ''a'')" "js ''a'' \<noteq> []" by (simp_all add: js_def)
  have h3: "\<not> (\<exists>d. d \<noteq> 0x3E \<and> sublist [0x3C, d] (js ''a<>b''))"
    by (auto simp add: js_def sublist_Cons_right)
  from removeTag_empty_tag_kept
      [of "js ''<b>x</b>''" "js ''<i>y''" True "js ''<i>y''" "js ''a''" "js ''a''" "js ''a<>b''"]
    h1 h2 h3
  show ?thesis by blast
qed

end
